theory Spec2Isabelle
  imports Main
begin

section \<open>Python values used by the simulator\<close>

text \<open>
  A Python \<open>str\<close> is a sequence of Unicode code points, so it is modelled as a list of
  natural numbers (one per code point) and not as a byte string: \<open>list(input_string)\<close>
  yields one tape cell per code point, and the blank symbol of the simulator (U+2294) is a
  single code point. \<open>py\<close> embeds an ASCII literal.
\<close>

type_synonym pystr = "nat list"

definition py :: "string \<Rightarrow> pystr" where
  "py s = map of_char s"

datatype py_error = IndexError

text \<open>
  The position an index \<open>i\<close> denotes in a list of \<open>len\<close> cells: itself when it lies in
  \<open>0 .. len - 1\<close>, \<open>len + i\<close> when it lies in \<open>-len .. -1\<close>, and none otherwise.
\<close>

definition py_index :: "nat \<Rightarrow> int \<Rightarrow> nat option" where
  "py_index len i =
     (if 0 \<le> i \<and> i < int len then Some (nat i)
      else if - int len \<le> i \<and> i < 0 then Some (nat (int len + i))
      else None)"

text \<open>\<open>xs[i]\<close> and \<open>xs[i] = v\<close> raise IndexError when the index denotes no position.\<close>

definition py_getitem :: "'a list \<Rightarrow> int \<Rightarrow> py_error + 'a" where
  "py_getitem xs i =
     (case py_index (length xs) i of None \<Rightarrow> Inl IndexError | Some k \<Rightarrow> Inr (xs ! k))"

definition py_setitem :: "'a list \<Rightarrow> int \<Rightarrow> 'a \<Rightarrow> py_error + 'a list" where
  "py_setitem xs i v =
     (case py_index (length xs) i of None \<Rightarrow> Inl IndexError | Some k \<Rightarrow> Inr (xs[k := v]))"

text \<open>The slices \<open>xs[:i]\<close> and \<open>xs[i:]\<close>; slices clamp and never raise.\<close>

definition py_slice_to :: "'a list \<Rightarrow> int \<Rightarrow> 'a list" where
  "py_slice_to xs i = (if i < 0 then take (nat (int (length xs) + i)) xs else take (nat i) xs)"

definition py_slice_from :: "'a list \<Rightarrow> int \<Rightarrow> 'a list" where
  "py_slice_from xs i = (if i < 0 then drop (nat (int (length xs) + i)) xs else drop (nat i) xs)"

text \<open>\<open>''.join(cells)\<close>\<close>

definition join :: "pystr list \<Rightarrow> pystr" where
  "join cells = concat cells"

text \<open>The f-string rendering \<open>f"{state}"\<close> of a value that is a \<open>str\<close> or \<open>None\<close>.\<close>

definition format_value :: "pystr option \<Rightarrow> pystr" where
  "format_value v = (case v of None \<Rightarrow> py ''None'' | Some s \<Rightarrow> s)"


section \<open>The machine M = (Q, Sigma, Gamma, delta, q0, qaccept, qreject)\<close>

text \<open>
  The attributes of class \<open>TuringMachine\<close>. The three special states start as \<open>None\<close>
  and stay so when the description file has no line for them. \<open>delta\<close> is a \<open>dict\<close>:
  an association list in insertion order, looked up with \<open>map_of\<close>.
\<close>

type_synonym transition = "(pystr \<times> pystr) \<times> (pystr \<times> pystr \<times> pystr)"

record TuringMachine =
  Q :: "pystr set"
  Sigma :: "pystr set"
  Gamma :: "pystr set"
  delta :: "transition list"
  q0 :: "pystr option"
  qaccept :: "pystr option"
  qreject :: "pystr option"
  blank :: pystr

text \<open>\<open>__init__\<close>; the blank symbol is the one-character string U+2294.\<close>

definition init :: TuringMachine where
  "init = \<lparr>Q = {}, Sigma = {}, Gamma = {}, delta = [], q0 = None, qaccept = None,
           qreject = None, blank = [8852]\<rparr>"

text \<open>\<open>v in S\<close> for a value that may be \<open>None\<close> and a set of strings.\<close>

definition py_in :: "pystr option \<Rightarrow> pystr set \<Rightarrow> bool" where
  "py_in v S = (case v of None \<Rightarrow> False | Some s \<Rightarrow> s \<in> S)"


section \<open>verify_specification\<close>

text \<open>
  One constructor per message text of \<open>verify_specification\<close>, carrying the value the
  f-string interpolates. The source and the target state of a transition share one text
  (\<open>Estado ... en delta no esta en Q\<close>), and so do the read and the written symbol.
\<close>

datatype spec_error =
    Q_empty
  | Sigma_empty
  | Gamma_empty
  | Blank_not_in_Gamma pystr
  | Sigma_not_subset_Gamma
  | Blank_in_Sigma
  | Initial_not_in_Q "pystr option"
  | Accept_not_in_Q "pystr option"
  | Reject_not_in_Q "pystr option"
  | Accept_equals_reject
  | Delta_state_not_in_Q pystr
  | Delta_symbol_not_in_Gamma pystr
  | Bad_direction pystr

text \<open>The body of the \<open>for\<close> loop over \<open>self.delta.items()\<close>.\<close>

definition check_transition :: "TuringMachine \<Rightarrow> transition \<Rightarrow> spec_error list" where
  "check_transition M entry =
     (case entry of ((st, symbol), (new_state, new_symbol, direction)) \<Rightarrow>
        (if st \<notin> Q M then [Delta_state_not_in_Q st] else []) @
        (if symbol \<notin> Gamma M then [Delta_symbol_not_in_Gamma symbol] else []) @
        (if new_state \<notin> Q M then [Delta_state_not_in_Q new_state] else []) @
        (if new_symbol \<notin> Gamma M then [Delta_symbol_not_in_Gamma new_symbol] else []) @
        (if direction \<notin> set [py ''L'', py ''R''] then [Bad_direction direction] else []))"

definition verify_specification :: "TuringMachine \<Rightarrow> spec_error list" where
  "verify_specification M =
     (if Q M = {} then [Q_empty] else []) @
     (if Sigma M = {} then [Sigma_empty] else []) @
     (if Gamma M = {} then [Gamma_empty] else []) @
     (if blank M \<notin> Gamma M then [Blank_not_in_Gamma (blank M)] else []) @
     (if \<not> Sigma M \<subseteq> Gamma M then [Sigma_not_subset_Gamma] else []) @
     (if blank M \<in> Sigma M then [Blank_in_Sigma] else []) @
     (if \<not> py_in (q0 M) (Q M) then [Initial_not_in_Q (q0 M)] else []) @
     (if \<not> py_in (qaccept M) (Q M) then [Accept_not_in_Q (qaccept M)] else []) @
     (if \<not> py_in (qreject M) (Q M) then [Reject_not_in_Q (qreject M)] else []) @
     (if qaccept M = qreject M then [Accept_equals_reject] else []) @
     concat (map (check_transition M) (delta M))"


section \<open>get_configuration\<close>

text \<open>
  The \<open>while\<close> loop that pops trailing blanks off the list it was given, down to one cell.
\<close>

function pop_blanks :: "pystr \<Rightarrow> pystr list \<Rightarrow> pystr list" where
  "pop_blanks b tape =
     (if length tape > 1 \<and> last tape = b then pop_blanks b (butlast tape) else tape)"
  by pat_completeness auto
termination
  by (relation "measure (\<lambda>(b, tape). length tape)") auto

declare pop_blanks.simps [simp del]

text \<open>
  \<open>get_configuration\<close> pops cells off the list object it receives, so the model returns
  both what that object holds afterwards and the formatted string. (\<open>tape = [self.blank]\<close>
  rebinds the local name only.) Every call in \<open>run\<close> passes \<open>tape[:]\<close>, a fresh copy, so
  the first component is dropped there and the tape of the run is left as it was.
\<close>

definition get_configuration ::
    "TuringMachine \<Rightarrow> pystr list \<Rightarrow> pystr option \<Rightarrow> int \<Rightarrow> pystr list \<times> pystr" where
  "get_configuration M tape state head =
     (let popped = pop_blanks (blank M) tape;
          tape' = (if popped = [] then [blank M] else popped);
          left_part = join (py_slice_to tape' head);
          right_part = join (py_slice_from tape' head);
          right_part' = (if right_part = [] then blank M else right_part)
      in (popped, left_part @ format_value state @ right_part'))"


section \<open>run\<close>

text \<open>The local variables of \<open>run\<close>.\<close>

record run_state =
  tape :: "pystr list"
  state :: "pystr option"
  head :: int
  step :: int
  configurations :: "pystr list"

datatype result = CICLO_INFINITO | ACEPTADA | RECHAZADA | DESCONOCIDO

text \<open>\<open>configurations.append(self.get_configuration(tape[:], state, head))\<close>\<close>

definition save_configuration :: "TuringMachine \<Rightarrow> run_state \<Rightarrow> run_state" where
  "save_configuration M s =
     (let (copy_after, config) = get_configuration M (tape s) (state s) (head s)
      in s\<lparr>configurations := configurations s @ [config]\<rparr>)"

text \<open>Initialisation: the tape, the initial configuration and its snapshot.\<close>

definition initial_state :: "TuringMachine \<Rightarrow> pystr \<Rightarrow> run_state" where
  "initial_state M input_string =
     save_configuration M
       \<lparr>tape = (if input_string \<noteq> [] then map (\<lambda>c. [c]) input_string else [blank M]),
        state = q0 M, head = 0, step = 0, configurations = []\<rparr>"

text \<open>The condition of the \<open>while\<close> loop.\<close>

definition loop_cond :: "TuringMachine \<Rightarrow> int \<Rightarrow> run_state \<Rightarrow> bool" where
  "loop_cond M max_steps s \<longleftrightarrow>
     state s \<noteq> qaccept M \<and> state s \<noteq> qreject M \<and> step s < max_steps"

text \<open>"Extender la cinta si es necesario": the two \<open>if\<close>s at the top of the loop body.\<close>

definition extend_tape :: "TuringMachine \<Rightarrow> run_state \<Rightarrow> run_state" where
  "extend_tape M s =
     (let s1 = (if head s < 0 then s\<lparr>tape := blank M # tape s, head := 0\<rparr> else s)
      in if head s1 \<ge> int (length (tape s1)) then s1\<lparr>tape := tape s1 @ [blank M]\<rparr> else s1)"

text \<open>\<open>(state, current_symbol) in self.delta\<close> and \<open>self.delta[(state, current_symbol)]\<close>.\<close>

definition lookup :: "TuringMachine \<Rightarrow> pystr option \<Rightarrow> pystr \<Rightarrow> (pystr \<times> pystr \<times> pystr) option" where
  "lookup M q a = (case q of None \<Rightarrow> None | Some q' \<Rightarrow> map_of (delta M) (q', a))"

text \<open>"Mover cabeza": a direction that is neither \<open>R\<close> nor \<open>L\<close> moves nothing.\<close>

definition move_head :: "TuringMachine \<Rightarrow> pystr \<Rightarrow> run_state \<Rightarrow> run_state" where
  "move_head M direction s =
     (if direction = py ''R'' then s\<lparr>head := head s + 1\<rparr>
      else if direction = py ''L'' then
        (let s1 = s\<lparr>head := head s - 1\<rparr>
         in if head s1 < 0 then s1\<lparr>tape := blank M # tape s1, head := 0\<rparr> else s1)
      else s)"

text \<open>The sampling test that guards the snapshot at the end of the loop body.\<close>

definition sampled :: "TuringMachine \<Rightarrow> run_state \<Rightarrow> bool" where
  "sampled M s \<longleftrightarrow>
     step s < 100 \<or> step s mod 100 = 0 \<or> state s \<in> set [qaccept M, qreject M]"

text \<open>
  One pass through the loop body: it raises, leaves the loop by \<open>break\<close>, or falls
  through to the next test of the loop condition.
\<close>

datatype flow = Break run_state | Continue run_state

definition loop_body :: "TuringMachine \<Rightarrow> run_state \<Rightarrow> py_error + flow" where
  "loop_body M s0 =
     (let s = extend_tape M s0 in
      case py_getitem (tape s) (head s) of
        Inl e \<Rightarrow> Inl e
      | Inr current_symbol \<Rightarrow>
          (case lookup M (state s) current_symbol of
             None \<Rightarrow> Inr (Break (save_configuration M (s\<lparr>state := qreject M\<rparr>)))
           | Some (new_state, new_symbol, direction) \<Rightarrow>
               (case py_setitem (tape s) (head s) new_symbol of
                  Inl e \<Rightarrow> Inl e
                | Inr written \<Rightarrow>
                    (let s1 = move_head M direction (s\<lparr>tape := written\<rparr>);
                         s2 = s1\<lparr>state := Some new_state, step := step s1 + 1\<rparr>
                     in Inr (Continue (if sampled M s2 then save_configuration M s2 else s2))))))"

lemma loop_body_Continue_step:
  "loop_body M s = Inr (Continue s') \<Longrightarrow> step s' = step s + 1"
  by (auto simp: loop_body_def extend_tape_def move_head_def save_configuration_def Let_def
           split: sum.splits option.splits prod.splits if_splits)

function run_loop :: "TuringMachine \<Rightarrow> int \<Rightarrow> run_state \<Rightarrow> py_error + run_state" where
  "run_loop M max_steps s =
     (if loop_cond M max_steps s then
        (case loop_body M s of
           Inl e \<Rightarrow> Inl e
         | Inr (Break s') \<Rightarrow> Inr s'
         | Inr (Continue s') \<Rightarrow> run_loop M max_steps s')
      else Inr s)"
  by pat_completeness auto
termination
  by (relation "measure (\<lambda>(M, max_steps, s). nat (max_steps - step s))")
     (auto simp: loop_cond_def dest: loop_body_Continue_step)

declare run_loop.simps [simp del]

text \<open>"Resultado": the \<open>if\<close>/\<open>elif\<close> chain after the loop, in the order of the source.\<close>

definition result_of :: "TuringMachine \<Rightarrow> int \<Rightarrow> run_state \<Rightarrow> result" where
  "result_of M max_steps s =
     (if step s \<ge> max_steps then CICLO_INFINITO
      else if state s = qaccept M then ACEPTADA
      else if state s = qreject M then RECHAZADA
      else DESCONOCIDO)"

text \<open>\<open>run\<close> (the \<open>debug\<close> flag only prints and is left out).\<close>

definition run :: "TuringMachine \<Rightarrow> pystr \<Rightarrow> int \<Rightarrow> py_error + (pystr list \<times> result)" where
  "run M input_string max_steps =
     (case run_loop M max_steps (initial_state M input_string) of
        Inl e \<Rightarrow> Inl e
      | Inr s \<Rightarrow> Inr (configurations s, result_of M max_steps s))"



section \<open>The seven checks of the validator\<close>











section \<open>Notions used to state the properties of the configuration notation\<close>

text \<open>
  The tape \<open>get_configuration\<close> formats: the list it was given without its trailing
  blanks, and the two parts it cuts it into at the head.
\<close>

definition trimmed :: "TuringMachine \<Rightarrow> pystr list \<Rightarrow> pystr list" where
  "trimmed M t = (let popped = pop_blanks (blank M) t in if popped = [] then [blank M] else popped)"

definition left_part :: "TuringMachine \<Rightarrow> pystr list \<Rightarrow> int \<Rightarrow> pystr" where
  "left_part M t h = join (py_slice_to (trimmed M t) h)"

definition right_part :: "TuringMachine \<Rightarrow> pystr list \<Rightarrow> int \<Rightarrow> pystr" where
  "right_part M t h =
     (let r = join (py_slice_from (trimmed M t) h) in if r = [] then blank M else r)"

text \<open>
  Two snapshots (tape, state, head) that are equal up to trailing blanks: the same text for
  the state, the same head, and tapes that differ at most in blanks at the end.
\<close>

definition same_snapshot ::
    "TuringMachine \<Rightarrow> pystr list \<times> pystr option \<times> int \<Rightarrow> pystr list \<times> pystr option \<times> int \<Rightarrow> bool" where
  "same_snapshot M x y =
     (case (x, y) of ((t, q, h), (t', q', h')) \<Rightarrow>
        format_value q = format_value q' \<and> h = h' \<and>
        pop_blanks (blank M) t = pop_blanks (blank M) t')"

text \<open>
  Splitting a string at the first occurrence of a marker: what is before it and what is
  after it, if it occurs.
\<close>

fun find_marker :: "pystr \<Rightarrow> pystr \<Rightarrow> (pystr \<times> pystr) option" where
  "find_marker m [] = (if m = [] then Some ([], []) else None)"
| "find_marker m (c # cs) =
     (if take (length m) (c # cs) = m then Some ([], drop (length m) (c # cs))
      else map_option (\<lambda>(l, r). (c # l, r)) (find_marker m cs))"

text \<open>\<open>s\<close> is \<open>s'\<close> followed by one or more characters of \<open>G\<close>.\<close>

definition extends :: "nat set \<Rightarrow> pystr \<Rightarrow> pystr \<Rightarrow> bool" where
  "extends G s s' \<longleftrightarrow>
     length s' < length s \<and> take (length s') s = s' \<and> set (drop (length s') s) \<subseteq> G"

text \<open>
  A snapshot whose formatted text can be read back, \<open>G\<close> being the characters tape
  symbols are made of: a non-empty tape of one-character symbols over \<open>G\<close>, a
  one-character blank in \<open>G\<close>, a state whose text starts with a character outside \<open>G\<close>,
  and a head on the trimmed tape or just past its end.
\<close>

definition readable :: "nat set \<Rightarrow> TuringMachine \<Rightarrow> pystr list \<Rightarrow> pystr option \<Rightarrow> int \<Rightarrow> bool" where
  "readable G M t q h \<longleftrightarrow>
     t \<noteq> [] \<and> length (blank M) = 1 \<and> set (blank M) \<subseteq> G \<and>
     list_all (\<lambda>c. length c = 1 \<and> set c \<subseteq> G) t \<and>
     format_value q \<noteq> [] \<and> hd (format_value q) \<notin> G \<and>
     0 \<le> h \<and> h \<le> int (length (pop_blanks (blank M) t))"


section \<open>Notions used to state the properties of a run\<close>

text \<open>The head is on a cell of the tape or just past its right end.\<close>

definition head_in_range :: "run_state \<Rightarrow> bool" where
  "head_in_range s \<longleftrightarrow> 0 \<le> head s \<and> head s \<le> int (length (tape s))"

text \<open>
  "Aplicar transicion": what the loop body makes of the extended state \<open>e\<close> and the
  looked-up triple, before the snapshot: write, move, new state, one more step.
\<close>

definition applied :: "TuringMachine \<Rightarrow> run_state \<Rightarrow> pystr \<times> pystr \<times> pystr \<Rightarrow> run_state" where
  "applied M e t =
     (case t of (new_state, new_symbol, direction) \<Rightarrow>
        (move_head M direction (e\<lparr>tape := (tape e)[nat (head e) := new_symbol]\<rparr>))
          \<lparr>state := Some new_state, step := step e + 1\<rparr>)"

text \<open>The string \<open>get_configuration\<close> gives for the tape, state and head of \<open>s\<close>.\<close>

definition snapshot :: "TuringMachine \<Rightarrow> run_state \<Rightarrow> pystr" where
  "snapshot M s = snd (get_configuration M (tape s) (state s) (head s))"

text \<open>
  \<open>reached M inp n k s\<close>: in the run of \<open>M\<close> on \<open>inp\<close> with step limit \<open>n\<close>, the loop
  condition is tested for the \<open>k+1\<close>-th time in state \<open>s\<close>, that is after \<open>k\<close> complete
  passes through the loop body.
\<close>

inductive reached :: "TuringMachine \<Rightarrow> pystr \<Rightarrow> int \<Rightarrow> nat \<Rightarrow> run_state \<Rightarrow> bool"
  for M :: TuringMachine and inp :: pystr and n :: int where
    start: "reached M inp n 0 (initial_state M inp)"
  | pass: "reached M inp n k s \<Longrightarrow> loop_cond M n s \<Longrightarrow> loop_body M s = Inr (Continue s')
           \<Longrightarrow> reached M inp n (Suc k) s'"

text \<open>
  Every state the loop of \<open>run\<close> goes through, from \<open>s\<close> on, whether or not a snapshot
  of it is kept: the states at the loop test, and the state a \<open>break\<close> leaves.
\<close>

function visited :: "TuringMachine \<Rightarrow> int \<Rightarrow> run_state \<Rightarrow> run_state list" where
  "visited M max_steps s =
     s # (if loop_cond M max_steps s then
            (case loop_body M s of
               Inl e \<Rightarrow> []
             | Inr (Break s') \<Rightarrow> [s']
             | Inr (Continue s') \<Rightarrow> visited M max_steps s')
          else [])"
  by pat_completeness auto
termination
  by (relation "measure (\<lambda>(M, max_steps, s). nat (max_steps - step s))")
     (auto simp: loop_cond_def dest: loop_body_Continue_step)

declare visited.simps [simp del]


text \<open>The symbol the pass that starts in \<open>s\<close> reads: the cell under the head once the tape
  has been extended.\<close>

definition current_symbol :: "TuringMachine \<Rightarrow> run_state \<Rightarrow> pystr" where
  "current_symbol M s = tape (extend_tape M s) ! nat (head (extend_tape M s))"

text \<open>The state the loop is left in when that pass finds no transition.\<close>

definition rejecting :: "TuringMachine \<Rightarrow> run_state \<Rightarrow> run_state" where
  "rejecting M s = (extend_tape M s)\<lparr>state := qreject M\<rparr>"

text \<open>The state a pass through the loop body ends in, whichever way it leaves.\<close>

fun after :: "flow \<Rightarrow> run_state" where
  "after (Break s) = s"
| "after (Continue s) = s"

text \<open>
  Two machine objects that \<open>run\<close> cannot tell apart: it reads only the three special
  states, the blank symbol and the transition dictionary, the latter only by key.
\<close>

definition same_machine :: "TuringMachine \<Rightarrow> TuringMachine \<Rightarrow> bool" where
  "same_machine M M' \<longleftrightarrow>
     q0 M = q0 M' \<and> qaccept M = qaccept M' \<and> qreject M = qreject M' \<and> blank M = blank M' \<and>
     map_of (delta M) = map_of (delta M')"


section \<open>Example machines\<close>

text \<open>
  Three machines that pass \<open>verify_specification\<close>, over the input alphabet \<open>{0}\<close>.
  \<open>accept_blank\<close> has the single transition \<open>(q0, blank) -> (qa, blank, R)\<close>;
  \<open>no_moves\<close> has no transition at all; \<open>accept_at_once\<close> has none either and starts
  in its accepting state.
\<close>

definition accept_blank :: TuringMachine where
  "accept_blank = init\<lparr>Q := {py ''q0'', py ''qa'', py ''qr''}, Sigma := {py ''0''},
             Gamma := {py ''0'', [8852]},
             delta := [((py ''q0'', [8852]), (py ''qa'', [8852], py ''R''))],
             q0 := Some (py ''q0''), qaccept := Some (py ''qa''), qreject := Some (py ''qr'')\<rparr>"

definition no_moves :: TuringMachine where
  "no_moves = init\<lparr>Q := {py ''q0'', py ''qa'', py ''qr''}, Sigma := {py ''0''},
             Gamma := {py ''0'', [8852]},
             q0 := Some (py ''q0''), qaccept := Some (py ''qa''), qreject := Some (py ''qr'')\<rparr>"

definition accept_at_once :: TuringMachine where
  "accept_at_once = init\<lparr>Q := {py ''qa'', py ''qr''}, Sigma := {py ''0''},
             Gamma := {py ''0'', [8852]},
             q0 := Some (py ''qa''), qaccept := Some (py ''qa''), qreject := Some (py ''qr'')\<rparr>"



text \<open>A specification that passes the validator and has \<open>q\<close> both as a state and as a
  tape symbol.\<close>

definition state_named_q :: TuringMachine where
  "state_named_q = init\<lparr>Q := {py ''q'', py ''a'', py ''r''}, Sigma := {py ''q'', py ''0''},
      Gamma := {py ''q'', py ''0'', [8852]},
      delta := [((py ''q'', py ''q''), (py ''q'', py ''q'', py ''R''))],
      q0 := Some (py ''q''), qaccept := Some (py ''a''), qreject := Some (py ''r'')\<rparr>"

text \<open>
  \<open>accept_blank\<close> with one more transition, written in two orders (and with Q written in
  another order).
\<close>

definition accept_blank_reordered :: TuringMachine where
  "accept_blank_reordered = accept_blank\<lparr>
     Q := {py ''qr'', py ''qa'', py ''q0''},
     delta := [((py ''q0'', py ''0''), (py ''q0'', py ''0'', py ''R'')),
               ((py ''q0'', [8852]), (py ''qa'', [8852], py ''R''))]\<rparr>"

definition accept_blank_twice :: TuringMachine where
  "accept_blank_twice = accept_blank\<lparr>
     delta := [((py ''q0'', [8852]), (py ''qa'', [8852], py ''R'')),
               ((py ''q0'', py ''0''), (py ''q0'', py ''0'', py ''R''))]\<rparr>"

text \<open>
  A machine that passes the validator and walks off both ends of its tape: from the blank
  it first moves right, then keeps writing 1 and moving left. \<open>zigzag_1\<close> and \<open>zigzag_2\<close>
  are the states of its run on the empty input after one and two passes.
\<close>

definition zigzag :: TuringMachine where
  "zigzag = init\<lparr>Q := {py ''q0'', py ''q1'', py ''qa'', py ''qr''}, Sigma := {py ''1''},
      Gamma := {py ''1'', [8852]},
      delta := [((py ''q0'', [8852]), (py ''q1'', [8852], py ''R'')),
                ((py ''q1'', [8852]), (py ''q1'', py ''1'', py ''L''))],
      q0 := Some (py ''q0''), qaccept := Some (py ''qa''), qreject := Some (py ''qr'')\<rparr>"

definition zigzag_1 :: run_state where
  "zigzag_1 = \<lparr>tape = [[8852]], state = Some (py ''q1''), head = 1, step = 1,
      configurations = [py ''q0'' @ [8852], [8852] @ py ''q1'' @ [8852]]\<rparr>"

definition zigzag_2 :: run_state where
  "zigzag_2 = \<lparr>tape = [[8852], py ''1''], state = Some (py ''q1''), head = 0, step = 2,
      configurations = [py ''q0'' @ [8852], [8852] @ py ''q1'' @ [8852],
                        py ''q1'' @ [8852] @ py ''1'']\<rparr>"

definition accept_blank_final :: run_state where
  "accept_blank_final = \<lparr>tape = [[8852]], state = Some (py ''qa''), head = 1, step = 1,
            configurations = [py ''q0'' @ [8852], [8852] @ py ''qa'' @ [8852]]\<rparr>"


section \<open>The errors of the validator, by check\<close>


















section \<open>Reading a configuration back\<close>

lemma get_configuration_parts:
  "get_configuration M t q h =
     (pop_blanks (blank M) t, left_part M t h @ format_value q @ right_part M t h)"
  by (simp add: get_configuration_def left_part_def right_part_def trimmed_def Let_def)

lemma pop_blanks_step:
  "length t > 1 \<Longrightarrow> last t = b \<Longrightarrow> pop_blanks b t = pop_blanks b (butlast t)"
  by (simp add: pop_blanks.simps [of b t])

lemma pop_blanks_short: "length t \<le> 1 \<Longrightarrow> pop_blanks b t = t"
  by (simp add: pop_blanks.simps [of b t])

lemma pop_blanks_nonblank: "last t \<noteq> b \<Longrightarrow> pop_blanks b t = t"
  by (simp add: pop_blanks.simps [of b t])

lemma pop_blanks_cases:
  obtains (step) "length t > 1" "last t = b" "pop_blanks b t = pop_blanks b (butlast t)"
  | (stop) "length t \<le> 1 \<or> last t \<noteq> b" "pop_blanks b t = t"
proof (cases "length t > 1 \<and> last t = b")
  case True
  with pop_blanks_step [of t b] step show ?thesis by blast
next
  case False
  then have "length t \<le> 1 \<or> last t \<noteq> b" by auto
  with pop_blanks_short [of t b] pop_blanks_nonblank [of t b] stop show ?thesis by blast
qed

lemma pop_blanks_not_Nil: "t \<noteq> [] \<Longrightarrow> pop_blanks b t \<noteq> []"
proof (induction b t rule: pop_blanks.induct)
  case (1 b t)
  show ?case
  proof (cases rule: pop_blanks_cases [where t = t and b = b])
    case step
    then have "butlast t \<noteq> []" by (cases t) auto
    with "1.IH" step show ?thesis by simp
  next
    case stop
    with "1.prems" show ?thesis by simp
  qed
qed

lemma pop_blanks_last: "length (pop_blanks b t) > 1 \<Longrightarrow> last (pop_blanks b t) \<noteq> b"
proof (induction b t rule: pop_blanks.induct)
  case (1 b t)
  show ?case
  proof (cases rule: pop_blanks_cases [where t = t and b = b])
    case step
    with "1.IH" "1.prems" show ?thesis by simp
  next
    case stop
    with "1.prems" show ?thesis by auto
  qed
qed

lemma pop_blanks_subset: "set (pop_blanks b t) \<subseteq> set t"
proof (induction b t rule: pop_blanks.induct)
  case (1 b t)
  show ?case
  proof (cases rule: pop_blanks_cases [where t = t and b = b])
    case step
    with "1.IH" have "set (pop_blanks b t) \<subseteq> set (butlast t)" by simp
    also have "\<dots> \<subseteq> set t" by (auto dest: in_set_butlastD)
    finally show ?thesis .
  next
    case stop
    then show ?thesis by simp
  qed
qed

lemma concat_singletons_inj:
  "list_all (\<lambda>c. length c = 1) xs \<Longrightarrow> list_all (\<lambda>c. length c = 1) ys \<Longrightarrow>
   concat xs = concat ys \<Longrightarrow> xs = ys"
proof (induction xs arbitrary: ys)
  case Nil
  then show ?case by (cases ys) (auto simp: length_Suc_conv)
next
  case (Cons x xs)
  from Cons.prems(1) obtain a where x: "x = [a]" by (auto simp: length_Suc_conv)
  show ?case
  proof (cases ys)
    case Nil
    with Cons.prems(3) x show ?thesis by simp
  next
    case (Cons y ys')
    with Cons.prems(2) obtain b where y: "y = [b]" by (auto simp: length_Suc_conv)
    from Cons.prems x y Cons have "a = b" "concat xs = concat ys'" by simp_all
    with Cons.IH [of ys'] Cons.prems Cons x y show ?thesis by simp
  qed
qed

lemma split_unique:
  assumes L: "set L \<subseteq> G" "set L' \<subseteq> G" and R: "set R \<subseteq> G" "set R' \<subseteq> G"
    and s: "s \<noteq> []" "hd s \<notin> G" and s': "s' \<noteq> []" "hd s' \<notin> G"
    and ne: "\<not> extends G s s'" "\<not> extends G s' s"
    and eq: "L @ s @ R = L' @ s' @ R'"
  shows "L = L' \<and> s = s' \<and> R = R'"
proof -
  have tw: "takeWhile (\<lambda>c. c \<in> G) (A @ m @ B) = A"
    if "set A \<subseteq> G" "m \<noteq> []" "hd m \<notin> G" for A m B
  proof -
    from that(2) obtain x m' where m: "m = x # m'" by (cases m) auto
    with that(3) have "x \<notin> G" by auto
    then have "takeWhile (\<lambda>c. c \<in> G) (A @ x # (m' @ B)) = takeWhile (\<lambda>c. c \<in> G) A"
      by (rule takeWhile_tail)
    also have "\<dots> = A" using that(1) by auto
    finally show ?thesis by (simp add: m)
  qed
  have "L = takeWhile (\<lambda>c. c \<in> G) (L @ s @ R)" using tw [OF L(1) s] by simp
  also have "\<dots> = L'" unfolding eq using tw [OF L(2) s'] by simp
  finally have l: "L = L'" .
  with eq have e2: "s @ R = s' @ R'" by simp
  have ext: "extends G a c" if "a = c @ u" "u \<noteq> []" "set u \<subseteq> G" for a c u
    using that by (simp add: extends_def)
  from e2 obtain u where "s = s' @ u \<and> u @ R = R' \<or> s @ u = s' \<and> R = u @ R'"
    unfolding append_eq_append_conv2 by blast
  then have "s = s'"
  proof
    assume a: "s = s' @ u \<and> u @ R = R'"
    with R(2) have "set u \<subseteq> G" by auto
    with a ext [of s s' u] ne(1) show ?thesis by (cases "u = []") auto
  next
    assume a: "s @ u = s' \<and> R = u @ R'"
    with R(1) have "set u \<subseteq> G" by auto
    with a ext [of s' s u] ne(2) show ?thesis by (cases "u = []") auto
  qed
  with l e2 show ?thesis by simp
qed

lemma find_marker_at:
  "m \<noteq> [] \<Longrightarrow> hd m \<notin> set L \<Longrightarrow> find_marker m (L @ m @ R) = Some (L, R)"
proof (induction L)
  case Nil
  then obtain c cs where "m @ R = c # cs" by (cases m) auto
  then show ?case by (simp add: Nil.prems) (metis append_eq_conv_conj)
next
  case (Cons x L)
  from Cons.prems obtain y m' where m: "m = y # m'" by (cases m) auto
  with Cons.prems(2) have "y \<noteq> x" by auto
  then have "take (length m) (x # L @ m @ R) \<noteq> m" by (simp add: m)
  moreover from Cons have "find_marker m (L @ m @ R) = Some (L, R)" by simp
  ultimately show ?case by simp
qed

lemma readable_parts:
  assumes "readable G M t q h"
  defines "T \<equiv> pop_blanks (blank M) t"
  shows "trimmed M t = T" and "T \<noteq> []" and "list_all (\<lambda>c. length c = 1) T"
    and "left_part M t h = concat (take (nat h) T)"
    and "right_part M t h = (if drop (nat h) T = [] then blank M else concat (drop (nat h) T))"
    and "set (left_part M t h) \<subseteq> G" and "set (right_part M t h) \<subseteq> G"
    and "nat h \<le> length T"
proof -
  from assms(1) have t: "t \<noteq> []" and b: "length (blank M) = 1" "set (blank M) \<subseteq> G"
    and c: "list_all (\<lambda>c. length c = 1 \<and> set c \<subseteq> G) t"
    and h: "0 \<le> h" "h \<le> int (length T)"
    by (simp_all add: readable_def T_def)
  show T: "T \<noteq> []" unfolding T_def using t by (rule pop_blanks_not_Nil)
  then show tr: "trimmed M t = T" by (simp add: trimmed_def T_def)
  from c pop_blanks_subset [of "blank M" t]
  have cT: "list_all (\<lambda>c. length c = 1 \<and> set c \<subseteq> G) T"
    unfolding T_def list_all_iff by blast
  then show one: "list_all (\<lambda>c. length c = 1) T" by (simp add: list_all_iff)
  show l: "left_part M t h = concat (take (nat h) T)"
    using h by (simp add: left_part_def tr py_slice_to_def join_def)
  have ne: "concat D \<noteq> []" if "D \<noteq> []" "set D \<subseteq> set T" for D
  proof -
    from that(1) obtain d D' where D: "D = d # D'" by (cases D) auto
    with that(2) one have "length d = 1" by (auto simp: list_all_iff)
    with D show ?thesis by auto
  qed
  have "concat (drop (nat h) T) = [] \<longleftrightarrow> drop (nat h) T = []"
    using ne [of "drop (nat h) T"] by (auto dest: in_set_dropD)
  then show r: "right_part M t h =
      (if drop (nat h) T = [] then blank M else concat (drop (nat h) T))"
    using h by (simp add: right_part_def tr py_slice_from_def join_def Let_def)
  have sub: "set (concat D) \<subseteq> G" if "set D \<subseteq> set T" for D
    using that cT by (auto simp: list_all_iff)
  show "set (left_part M t h) \<subseteq> G"
    unfolding l by (rule sub) (auto dest: in_set_takeD)
  show "set (right_part M t h) \<subseteq> G"
    unfolding r using b(2) sub [of "drop (nat h) T"] by (auto dest: in_set_dropD)
  show "nat h \<le> length T" using h by simp
qed

lemma readable_injective:
  assumes x: "readable G M t q h" and y: "readable G M t' q' h'"
    and ne: "\<not> extends G (format_value q) (format_value q')"
      "\<not> extends G (format_value q') (format_value q)"
    and eq: "snd (get_configuration M t q h) = snd (get_configuration M t' q' h')"
  shows "same_snapshot M (t, q, h) (t', q', h')"
proof -
  define T where "T = pop_blanks (blank M) t"
  define T' where "T' = pop_blanks (blank M) t'"
  note px = readable_parts [OF x, folded T_def]
  note py = readable_parts [OF y, folded T'_def]
  from x y have s: "format_value q \<noteq> []" "hd (format_value q) \<notin> G"
    and s': "format_value q' \<noteq> []" "hd (format_value q') \<notin> G"
    and h0: "0 \<le> h" "0 \<le> h'" and b: "length (blank M) = 1"
    by (simp_all add: readable_def)
  from eq have "left_part M t h @ format_value q @ right_part M t h =
      left_part M t' h' @ format_value q' @ right_part M t' h'"
    by (simp add: get_configuration_parts)
  from split_unique [OF px(6) py(6) px(7) py(7) s s' ne this]
  have l: "left_part M t h = left_part M t' h'" and st: "format_value q = format_value q'"
    and r: "right_part M t h = right_part M t' h'" by simp_all
  have one: "list_all (\<lambda>c. length c = 1) D" if "set D \<subseteq> set T \<or> set D \<subseteq> set T'" for D
    using that px(3) py(3) by (auto simp: list_all_iff)
  from l have "concat (take (nat h) T) = concat (take (nat h') T')"
    by (simp add: px(4) py(4))
  then have tk: "take (nat h) T = take (nat h') T'"
    by (intro concat_singletons_inj one) (auto dest: in_set_takeD)
  then have "length (take (nat h) T) = length (take (nat h') T')" by simp
  with px(8) py(8) have n: "nat h = nat h'" by simp
  with h0 have hh: "h = h'" by simp
  have single: "D = [blank M]"
    if "concat D = blank M" "set D \<subseteq> set T \<or> set D \<subseteq> set T'" for D
  proof -
    from b obtain a where a: "blank M = [a]" by (auto simp: length_Suc_conv)
    have "list_all (\<lambda>c. length c = 1) [blank M]" by (simp add: b)
    from concat_singletons_inj [OF one [OF that(2)] this] that(1) show ?thesis by simp
  qed
  have stuck: False
    if "drop (nat h) A = []" "drop (nat h) B = [blank M]" "take (nat h) A = take (nat h) B"
      "A \<noteq> []" "length B > 1 \<longrightarrow> last B \<noteq> blank M" for A B
  proof -
    have "B = take (nat h) B @ drop (nat h) B" by simp
    also have "\<dots> = A @ [blank M]" using that(1,2,3) by (metis append_take_drop_id append_Nil2)
    finally have "B = A @ [blank M]" .
    with that(4,5) show False by (cases A) auto
  qed
  have TT: "T = T'"
  proof (cases "drop (nat h) T = []")
    case True
    show ?thesis
    proof (cases "drop (nat h) T' = []")
      case dT': True
      from tk n True dT' show ?thesis by (metis append_take_drop_id)
    next
      case False
      with r True n have "concat (drop (nat h) T') = blank M" by (simp add: px(5) py(5))
      then have "drop (nat h) T' = [blank M]"
        by (rule single) (auto dest: in_set_dropD)
      from stuck [OF True this _ px(2)] tk n pop_blanks_last [of "blank M" t'] T'_def
      show ?thesis by auto
    qed
  next
    case False
    show ?thesis
    proof (cases "drop (nat h) T' = []")
      case True
      with r False n have "concat (drop (nat h) T) = blank M" by (simp add: px(5) py(5))
      then have "drop (nat h) T = [blank M]"
        by (rule single) (auto dest: in_set_dropD)
      from stuck [OF True this _ py(2)] tk n pop_blanks_last [of "blank M" t] T_def
      show ?thesis by auto
    next
      case dT': False
      with r False n have "concat (drop (nat h) T) = concat (drop (nat h) T')"
        by (simp add: px(5) py(5))
      then have "drop (nat h) T = drop (nat h) T'"
        by (intro concat_singletons_inj one) (auto dest: in_set_dropD)
      with tk n show ?thesis by (metis append_take_drop_id)
    qed
  qed
  from st hh TT show ?thesis by (simp add: same_snapshot_def T_def T'_def)
qed

lemma same_snapshot_get_configuration:
  assumes "same_snapshot M (t, q, h) (t', q', h')"
  shows "snd (get_configuration M t q h) = snd (get_configuration M t' q' h')"
  using assms
  by (simp add: same_snapshot_def get_configuration_parts left_part_def right_part_def
        trimmed_def)

lemma pop_blanks_two: "pop_blanks b [x, y] = (if y = b then [x] else [x, y])"
  by (simp add: pop_blanks.simps [of b "[x, y]"] pop_blanks.simps [of b "[x]"])

text \<open>
  When the head is more than one cell past the last non-blank cell, the blanks between
  that cell and the head are trimmed too, and two head positions give one text.
\<close>

lemma head_past_trimmed_tape:
  "snd (get_configuration init [py ''0'', [8852], [8852]] (Some (py ''q'')) 1) = py ''0q'' @ [8852] \<and>
   snd (get_configuration init [py ''0'', [8852], [8852]] (Some (py ''q'')) 2) = py ''0q'' @ [8852]"
proof -
  have p: "pop_blanks [8852] [py ''0'', [8852], [8852]] = [py ''0'']"
    by (simp add: pop_blanks.simps [of "[8852]" "[py ''0'', [8852], [8852]]"] pop_blanks_two)
  show ?thesis
    by (simp add: get_configuration_def init_def p py_slice_to_def py_slice_from_def join_def
          format_value_def Let_def) (simp add: py_def)
qed


section \<open>The loop body on a state with the head in range\<close>

lemma save_configuration_fields [simp]:
  "tape (save_configuration M s) = tape s"
  "state (save_configuration M s) = state s"
  "head (save_configuration M s) = head s"
  "step (save_configuration M s) = step s"
  by (simp_all add: save_configuration_def split: prod.splits)

lemma save_configuration_configurations:
  "configurations (save_configuration M s) = configurations s @ [snapshot M s]"
  by (simp add: save_configuration_def snapshot_def split: prod.splits)

lemma extend_tape_bounds:
  assumes "head s \<le> int (length (tape s))"
  shows "0 \<le> head (extend_tape M s) \<and>
         head (extend_tape M s) < int (length (tape (extend_tape M s)))"
  using assms by (auto simp: extend_tape_def Let_def)

lemma extend_tape_fields [simp]:
  "state (extend_tape M s) = state s"
  "step (extend_tape M s) = step s"
  "configurations (extend_tape M s) = configurations s"
  by (simp_all add: extend_tape_def Let_def)

lemma py_getitem_in_range:
  "0 \<le> i \<Longrightarrow> i < int (length xs) \<Longrightarrow> py_getitem xs i = Inr (xs ! nat i)"
  by (simp add: py_getitem_def py_index_def)

lemma py_setitem_in_range:
  "0 \<le> i \<Longrightarrow> i < int (length xs) \<Longrightarrow> py_setitem xs i v = Inr (xs[nat i := v])"
  by (simp add: py_setitem_def py_index_def)

lemma move_head_in_range:
  assumes "0 \<le> head s" "head s < int (length (tape s))"
  shows "head_in_range (move_head M d s)"
  using assms by (auto simp: move_head_def head_in_range_def Let_def)

lemma move_head_fields [simp]:
  "state (move_head M d s) = state s"
  "step (move_head M d s) = step s"
  "configurations (move_head M d s) = configurations s"
  by (simp_all add: move_head_def Let_def)

lemma loop_body_eq:
  assumes "head s \<le> int (length (tape s))"
  shows "loop_body M s =
     (let e = extend_tape M s in
      case lookup M (state e) (tape e ! nat (head e)) of
        None \<Rightarrow> Inr (Break (save_configuration M (e\<lparr>state := qreject M\<rparr>)))
      | Some t \<Rightarrow>
          Inr (Continue (if sampled M (applied M e t)
                         then save_configuration M (applied M e t) else applied M e t)))"
proof -
  from extend_tape_bounds [OF assms, of M]
  have b: "0 \<le> head (extend_tape M s)"
    "head (extend_tape M s) < int (length (tape (extend_tape M s)))"
    by auto
  show ?thesis
    unfolding loop_body_def Let_def applied_def
    by (simp add: py_getitem_in_range [OF b] py_setitem_in_range [OF b]
             split: option.splits prod.splits)
qed

lemma applied_in_range:
  assumes "0 \<le> head e" "head e < int (length (tape e))"
  shows "head_in_range (applied M e t)"
proof -
  obtain q a d where t: "t = (q, a, d)" by (cases t)
  have "head_in_range (move_head M d (e\<lparr>tape := (tape e)[nat (head e) := a]\<rparr>))"
    by (rule move_head_in_range) (use assms in simp_all)
  then show ?thesis by (simp add: applied_def t head_in_range_def)
qed

lemma applied_step [simp]: "step (applied M e t) = step e + 1"
  by (simp add: applied_def split: prod.splits)

lemma applied_state [simp]: "state (applied M e (q, a, d)) = Some q"
  by (simp add: applied_def)

lemma head_in_range_save [simp]:
  "head_in_range (save_configuration M s) = head_in_range s"
  by (simp add: head_in_range_def)

lemma head_in_range_le: "head_in_range s \<Longrightarrow> head s \<le> int (length (tape s))"
  by (simp add: head_in_range_def)

lemma loop_body_Continue_in_range:
  assumes "head_in_range s" "loop_body M s = Inr (Continue s')"
  shows "head_in_range s'"
proof -
  note le = head_in_range_le [OF assms(1)]
  from extend_tape_bounds [OF le, of M]
  have b: "0 \<le> head (extend_tape M s)"
    "head (extend_tape M s) < int (length (tape (extend_tape M s)))"
    by auto
  from assms(2) show ?thesis
    unfolding loop_body_eq [OF le] Let_def
    by (auto split: option.splits if_splits simp: applied_in_range [OF b])
qed

lemma head_in_range_initial: "head_in_range (initial_state M inp)"
  by (simp add: initial_state_def head_in_range_def)

lemma loop_body_Break:
  assumes "head_in_range s" "loop_body M s = Inr (Break s')"
  shows "state s' = qreject M \<and> step s' = step s"
proof -
  note le = head_in_range_le [OF assms(1)]
  from assms(2) show ?thesis
    unfolding loop_body_eq [OF le] Let_def
    by (auto split: option.splits if_splits)
qed

lemma loop_body_no_raise:
  assumes "head_in_range s"
  shows "\<exists>fl. loop_body M s = Inr fl"
proof -
  note le = head_in_range_le [OF assms(1)]
  show ?thesis
    unfolding loop_body_eq [OF le] Let_def
    by (auto split: option.splits)
qed

lemma run_loop_result:
  "head_in_range s \<Longrightarrow>
   \<exists>f. run_loop M n s = Inr f \<and> result_of M n f \<noteq> DESCONOCIDO"
proof (induction M n s rule: run_loop.induct)
  case (1 M n s)
  show ?case
  proof (cases "loop_cond M n s")
    case False
    then show ?thesis
      by (auto simp: run_loop.simps [of M n s] loop_cond_def result_of_def)
  next
    case True
    from loop_body_no_raise [OF "1.prems"] obtain fl where fl: "loop_body M s = Inr fl"
      by blast
    show ?thesis
    proof (cases fl)
      case (Break s')
      from loop_body_Break [OF "1.prems" fl [unfolded Break]] True
      have "result_of M n s' \<noteq> DESCONOCIDO"
        by (auto simp: result_of_def loop_cond_def)
      then show ?thesis using True fl Break by (simp add: run_loop.simps [of M n s])
    next
      case (Continue s')
      have "head_in_range s'"
        using loop_body_Continue_in_range "1.prems" fl Continue by blast
      from "1.IH" [OF True fl [unfolded Continue] refl this]
      show ?thesis using True fl Continue by (simp add: run_loop.simps [of M n s])
    qed
  qed
qed


lemma reached_in_range: "reached M inp n k s \<Longrightarrow> head_in_range s"
  by (induction rule: reached.induct)
     (auto intro: head_in_range_initial loop_body_Continue_in_range)

lemma reached_step: "reached M inp n k s \<Longrightarrow> step s = int k"
proof (induction rule: reached.induct)
  case start
  show ?case by (simp add: initial_state_def)
next
  case (pass k s s')
  then show ?case using loop_body_Continue_step [of M s s'] by simp
qed

lemma reached_run_loop:
  "reached M inp n k s \<Longrightarrow> run_loop M n (initial_state M inp) = run_loop M n s"
proof (induction rule: reached.induct)
  case start
  show ?case by simp
next
  case (pass k s s')
  then show ?case by (simp add: run_loop.simps [of M n s])
qed

lemma reached_unique:
  "reached M inp n k s \<Longrightarrow> reached M inp n k t \<Longrightarrow> s = t"
proof (induction arbitrary: t rule: reached.induct)
  case start
  then show ?case by (auto elim: reached.cases)
next
  case (pass k s s')
  from pass.prems obtain u where u: "reached M inp n k u" "loop_body M u = Inr (Continue t)"
    by (auto elim: reached.cases)
  from pass.IH [OF u(1)] u(2) pass.hyps(3) show ?case by simp
qed

lemma extend_tape_in_range:
  "head_in_range s \<Longrightarrow>
   extend_tape M s = (if head s = int (length (tape s)) then s\<lparr>tape := tape s @ [blank M]\<rparr> else s)"
  by (auto simp: extend_tape_def head_in_range_def Let_def)

lemma applied_tape_head:
  assumes "0 \<le> head e" "head e < int (length (tape e))"
  shows "(if d = py ''L'' \<and> head e = 0
          then tape (applied M e (q, a, d)) = blank M # (tape e)[0 := a] \<and> head (applied M e (q, a, d)) = 0
          else tape (applied M e (q, a, d)) = (tape e)[nat (head e) := a] \<and>
               head (applied M e (q, a, d)) =
                 head e + (if d = py ''R'' then 1 else if d = py ''L'' then - 1 else 0))"
  using assms by (auto simp: applied_def move_head_def Let_def py_def)

lemma extend_tape_length: "length (tape s) \<le> length (tape (extend_tape M s))"
  by (simp add: extend_tape_def Let_def)

lemma move_head_length: "length (tape s) \<le> length (tape (move_head M d s))"
  by (simp add: move_head_def Let_def)

lemma applied_length: "length (tape e) \<le> length (tape (applied M e t))"
proof -
  obtain q a d where t: "t = (q, a, d)" by (cases t)
  have "length (tape (e\<lparr>tape := (tape e)[nat (head e) := a]\<rparr>))
      \<le> length (tape (move_head M d (e\<lparr>tape := (tape e)[nat (head e) := a]\<rparr>)))"
    by (rule move_head_length)
  then show ?thesis by (simp add: applied_def t)
qed

lemma loop_body_length:
  assumes "head_in_range s" "loop_body M s = Inr fl"
  shows "length (tape s) \<le> length (tape (after fl))"
proof -
  note le = head_in_range_le [OF assms(1)]
  have a: "length (tape s) \<le> length (tape (applied M (extend_tape M s) t))" for t
    using extend_tape_length [of s M] applied_length [of "extend_tape M s" M t] by linarith
  from assms(2) show ?thesis
    unfolding loop_body_eq [OF le] Let_def
    using a extend_tape_length [of s M]
    by (auto split: option.splits if_splits)
qed

lemma run_loop_length:
  "head_in_range s \<Longrightarrow> run_loop M n s = Inr f \<Longrightarrow> length (tape s) \<le> length (tape f)"
proof (induction M n s rule: run_loop.induct)
  case (1 M n s)
  show ?case
  proof (cases "loop_cond M n s")
    case False
    with "1.prems" show ?thesis by (simp add: run_loop.simps [of M n s])
  next
    case True
    from loop_body_no_raise [OF "1.prems"(1)] obtain fl where fl: "loop_body M s = Inr fl"
      by blast
    note len = loop_body_length [OF "1.prems"(1) fl]
    show ?thesis
    proof (cases fl)
      case (Break s')
      with True fl "1.prems"(2) have "f = s'" by (simp add: run_loop.simps [of M n s])
      with len Break show ?thesis by simp
    next
      case (Continue s')
      have r: "head_in_range s'"
        using loop_body_Continue_in_range "1.prems"(1) fl Continue by blast
      from True fl Continue "1.prems"(2) have "run_loop M n s' = Inr f"
        by (simp add: run_loop.simps [of M n s])
      from "1.IH" [OF True fl [unfolded Continue] refl r this] len Continue
      show ?thesis by simp
    qed
  qed
qed

lemma reached_length_mono:
  "reached M inp n k t \<Longrightarrow> reached M inp n j s \<Longrightarrow> j \<le> k
   \<Longrightarrow> length (tape s) \<le> length (tape t)"
proof (induction arbitrary: j s rule: reached.induct)
  case start
  then have "reached M inp n 0 s" by simp
  from reached_unique [OF this reached.start] show ?case by simp
next
  case (pass k u t)
  show ?case
  proof (cases "j = Suc k")
    case True
    with pass.prems(1) have "reached M inp n (Suc k) s" by simp
    from reached_unique [OF this reached.pass [OF pass.hyps]] show ?thesis by simp
  next
    case False
    with pass.prems have "j \<le> k" by simp
    from pass.IH [OF pass.prems(1) this]
      loop_body_length [OF reached_in_range [OF pass.hyps(1)] pass.hyps(3)]
    show ?thesis by simp
  qed
qed

lemma missing_transition_run_loop:
  assumes r: "reached M inp n k s" and c: "loop_cond M n s"
    and lk: "lookup M (state s) (current_symbol M s) = None"
  shows "run_loop M n (initial_state M inp) = Inr (save_configuration M (rejecting M s))"
proof -
  note le = head_in_range_le [OF reached_in_range [OF r]]
  have "loop_body M s = Inr (Break (save_configuration M (rejecting M s)))"
    unfolding loop_body_eq [OF le] Let_def rejecting_def
    using lk by (simp add: current_symbol_def)
  with c have "run_loop M n s = Inr (save_configuration M (rejecting M s))"
    by (simp add: run_loop.simps [of M n s])
  with reached_run_loop [OF r] show ?thesis by simp
qed

lemma pop_blanks_single: "pop_blanks b [c] = [c]"
  by (simp add: pop_blanks.simps [of b "[c]"])

lemma get_configuration_single:
  "get_configuration M [blank M] q 0 = ([blank M], format_value q @ blank M)"
  by (simp add: get_configuration_def pop_blanks_single py_slice_to_def py_slice_from_def join_def Let_def)

lemma initial_state_empty:
  "initial_state M [] = \<lparr>tape = [blank M], state = q0 M, head = 0, step = 0,
      configurations = [format_value (q0 M) @ blank M]\<rparr>"
  by (simp add: initial_state_def save_configuration_def get_configuration_single)


section \<open>The trace and the states the loop goes through\<close>

lemma snapshot_save [simp]: "snapshot M (save_configuration M s) = snapshot M s"
  by (simp add: snapshot_def)

lemma sampled_save [simp]: "sampled M (save_configuration M s) = sampled M s"
  by (simp add: sampled_def)

lemma visited_stop: "\<not> loop_cond M n s \<Longrightarrow> visited M n s = [s]"
  by (simp add: visited.simps [of M n s])

lemma visited_Break:
  "loop_cond M n s \<Longrightarrow> loop_body M s = Inr (Break s') \<Longrightarrow> visited M n s = [s, s']"
  by (simp add: visited.simps [of M n s])

lemma visited_Continue:
  "loop_cond M n s \<Longrightarrow> loop_body M s = Inr (Continue s') \<Longrightarrow>
   visited M n s = s # visited M n s'"
  by (simp add: visited.simps [of M n s])

lemma visited_not_Nil [simp]: "visited M n s \<noteq> []"
  by (simp add: visited.simps [of M n s])

lemma hd_visited [simp]: "hd (visited M n s) = s"
  by (simp add: visited.simps [of M n s])

lemma loop_body_Continue_configurations:
  assumes "head_in_range s" "loop_body M s = Inr (Continue s')"
  shows "configurations s' = configurations s @ map (snapshot M) (filter (sampled M) [s'])"
proof -
  note le = head_in_range_le [OF assms(1)]
  from assms(2) show ?thesis
    unfolding loop_body_eq [OF le] Let_def
    by (auto split: option.splits if_splits
             simp: save_configuration_configurations applied_def)
qed

lemma loop_body_Break_configurations:
  assumes "head_in_range s" "loop_body M s = Inr (Break s')"
  shows "configurations s' = configurations s @ map (snapshot M) (filter (sampled M) [s'])"
proof -
  note le = head_in_range_le [OF assms(1)]
  from assms(2) show ?thesis
    unfolding loop_body_eq [OF le] Let_def
    by (auto split: option.splits simp: save_configuration_configurations sampled_def)
qed

lemma run_loop_visited:
  "head_in_range s \<Longrightarrow>
   \<exists>f. run_loop M n s = Inr f \<and> last (visited M n s) = f \<and>
       configurations f =
         configurations s @ map (snapshot M) (filter (sampled M) (tl (visited M n s)))"
proof (induction M n s rule: run_loop.induct)
  case (1 M n s)
  show ?case
  proof (cases "loop_cond M n s")
    case False
    then show ?thesis by (simp add: run_loop.simps [of M n s] visited_stop)
  next
    case True
    from loop_body_no_raise [OF "1.prems"] obtain fl where fl: "loop_body M s = Inr fl"
      by blast
    show ?thesis
    proof (cases fl)
      case (Break s')
      with fl have b: "loop_body M s = Inr (Break s')" by simp
      from loop_body_Break_configurations [OF "1.prems" b] True b
      show ?thesis by (simp add: run_loop.simps [of M n s] visited_Break [OF True b])
    next
      case (Continue s')
      with fl have c: "loop_body M s = Inr (Continue s')" by simp
      have r: "head_in_range s'"
        using loop_body_Continue_in_range [OF "1.prems" c] .
      from "1.IH" [OF True c refl r] obtain f where
        f: "run_loop M n s' = Inr f" "last (visited M n s') = f"
           "configurations f =
              configurations s' @ map (snapshot M) (filter (sampled M) (tl (visited M n s')))"
        by blast
      have v: "visited M n s' = s' # tl (visited M n s')"
        using visited_not_Nil [of M n s'] hd_visited [of M n s']
        by (metis list.collapse)
      have "configurations f =
        configurations s @ map (snapshot M) (filter (sampled M) (visited M n s'))"
        using f(3) loop_body_Continue_configurations [OF "1.prems" c]
        by (subst v) simp
      with f(1,2) True c show ?thesis
        by (simp add: run_loop.simps [of M n s] visited_Continue [OF True c])
    qed
  qed
qed

lemma visited_nth:
  "head_in_range s \<Longrightarrow> Suc i < length (visited M n s) \<Longrightarrow>
   loop_cond M n (visited M n s ! i) \<and> step (visited M n s ! i) = step s + int i"
proof (induction M n s arbitrary: i rule: visited.induct)
  case (1 M n s)
  have c: "loop_cond M n s"
  proof (rule ccontr)
    assume "\<not> loop_cond M n s"
    then have "visited M n s = [s]" by (rule visited_stop)
    with "1.prems"(2) show False by simp
  qed
  from loop_body_no_raise [OF "1.prems"(1)] obtain fl where fl: "loop_body M s = Inr fl"
    by blast
  show ?case
  proof (cases i)
    case 0
    with c show ?thesis by (simp add: visited.simps [of M n s])
  next
    case (Suc j)
    show ?thesis
    proof (cases fl)
      case (Break s')
      with fl c have "visited M n s = [s, s']" by (simp add: visited_Break)
      with "1.prems"(2) Suc show ?thesis by simp
    next
      case (Continue s')
      with fl have k: "loop_body M s = Inr (Continue s')" by simp
      have r: "head_in_range s'"
        using loop_body_Continue_in_range [OF "1.prems"(1) k] .
      have v: "visited M n s = s # visited M n s'" using c k by (rule visited_Continue)
      with "1.prems"(2) Suc have "Suc j < length (visited M n s')" by simp
      from "1.IH" [OF c k refl r this] loop_body_Continue_step [OF k] v Suc
      show ?thesis by simp
    qed
  qed
qed


section \<open>Machines that run alike\<close>

lemma same_machine_body:
  assumes "same_machine M M'"
  shows "loop_cond M n s = loop_cond M' n s" and "loop_body M s = loop_body M' s"
    and "initial_state M inp = initial_state M' inp" and "result_of M n s = result_of M' n s"
proof -
  from assms have e: "q0 M = q0 M'" "qaccept M = qaccept M'" "qreject M = qreject M'"
    "blank M = blank M'" "map_of (delta M) = map_of (delta M')"
    by (simp_all add: same_machine_def)
  have g: "get_configuration M t q h = get_configuration M' t q h" for t q h
    unfolding get_configuration_def e by (rule refl)
  have sv: "save_configuration M = save_configuration M'"
    unfolding save_configuration_def g fun_eq_iff by simp
  have ex: "extend_tape M = extend_tape M'" unfolding extend_tape_def e by (rule refl)
  have lk: "lookup M = lookup M'" unfolding lookup_def e by (rule refl)
  have mv: "move_head M = move_head M'" unfolding move_head_def e by (rule refl)
  have sm: "sampled M = sampled M'" unfolding sampled_def e by (rule refl)
  show "loop_cond M n s = loop_cond M' n s" unfolding loop_cond_def e by (rule refl)
  show "loop_body M s = loop_body M' s" unfolding loop_body_def sv ex lk mv sm e by (rule refl)
  show "initial_state M inp = initial_state M' inp"
    unfolding initial_state_def sv e by (rule refl)
  show "result_of M n s = result_of M' n s" unfolding result_of_def e by (rule refl)
qed

lemma same_machine_run_loop:
  "same_machine M M' \<Longrightarrow> run_loop M n s = run_loop M' n s"
proof (induction M n s rule: run_loop.induct)
  case (1 M n s)
  note eq = same_machine_body(1,2) [OF "1.prems"]
  show ?case
  proof (cases "loop_cond M n s")
    case False
    then show ?thesis
      using eq(1) [of n s] by (simp add: run_loop.simps [of M n s] run_loop.simps [of M' n s])
  next
    case True
    show ?thesis
    proof (cases "loop_body M' s")
      case (Inl e)
      with True eq(1) [of n s] eq(2) [of s] show ?thesis
        by (simp add: run_loop.simps [of M n s] run_loop.simps [of M' n s])
    next
      case (Inr fl)
      show ?thesis
      proof (cases fl)
        case (Break s')
        with Inr True eq(1) [of n s] eq(2) [of s] show ?thesis
          by (simp add: run_loop.simps [of M n s] run_loop.simps [of M' n s])
      next
        case (Continue s')
        with Inr eq(2) [of s] have c: "loop_body M s = Inr (Continue s')" by simp
        from "1.IH" [OF True c refl "1.prems"] True c eq(1) [of n s] Inr Continue
        show ?thesis
          by (simp add: run_loop.simps [of M n s] run_loop.simps [of M' n s])
      qed
    qed
  qed
qed


section \<open>The example machines, evaluated\<close>

lemma accept_blank_fields:
  "q0 accept_blank = Some (py ''q0'')" "qaccept accept_blank = Some (py ''qa'')"
  "qreject accept_blank = Some (py ''qr'')" "blank accept_blank = [8852]"
  "delta accept_blank = [((py ''q0'', [8852]), (py ''qa'', [8852], py ''R''))]"
  by (simp_all add: accept_blank_def init_def)

lemma no_moves_fields:
  "q0 no_moves = Some (py ''q0'')" "qaccept no_moves = Some (py ''qa'')"
  "qreject no_moves = Some (py ''qr'')" "blank no_moves = [8852]" "delta no_moves = []"
  by (simp_all add: no_moves_def init_def)

lemma accept_at_once_fields:
  "q0 accept_at_once = Some (py ''qa'')" "qaccept accept_at_once = Some (py ''qa'')"
  "qreject accept_at_once = Some (py ''qr'')" "blank accept_at_once = [8852]"
  "delta accept_at_once = []"
  by (simp_all add: accept_at_once_def init_def)

lemma accept_blank_cond: "loop_cond accept_blank 1 (initial_state accept_blank [])"
  by (simp add: loop_cond_def initial_state_empty accept_blank_fields py_def)

lemma accept_blank_body:
  "loop_body accept_blank (initial_state accept_blank []) =
     Inr (Continue accept_blank_final)"
  by (simp add: loop_body_eq initial_state_empty extend_tape_def lookup_def accept_blank_fields
        applied_def move_head_def sampled_def save_configuration_def get_configuration_def
        pop_blanks_single py_slice_to_def py_slice_from_def join_def format_value_def Let_def
        accept_blank_final_def)

lemma accept_blank_run_loop:
  "run_loop accept_blank 1 (initial_state accept_blank []) =
     Inr accept_blank_final"
proof -
  have "\<not> loop_cond accept_blank 1 accept_blank_final"
    by (simp add: loop_cond_def accept_blank_final_def)
  then have "run_loop accept_blank 1 accept_blank_final = Inr accept_blank_final"
    by (simp add: run_loop.simps [of accept_blank 1 accept_blank_final])
  then show ?thesis
    by (simp add: run_loop.simps [of accept_blank 1 "initial_state accept_blank []"]
          accept_blank_cond accept_blank_body)
qed

lemma no_moves_cond: "loop_cond no_moves 5 (initial_state no_moves [])"
  by (simp add: loop_cond_def initial_state_empty no_moves_fields py_def)

lemma no_moves_lookup:
  "lookup no_moves (state (initial_state no_moves []))
     (current_symbol no_moves (initial_state no_moves [])) = None"
  by (simp add: lookup_def no_moves_fields initial_state_empty)


lemma zigzag_fields:
  "q0 zigzag = Some (py ''q0'')" "qaccept zigzag = Some (py ''qa'')"
  "qreject zigzag = Some (py ''qr'')" "blank zigzag = [8852]"
  "delta zigzag = [((py ''q0'', [8852]), (py ''q1'', [8852], py ''R'')),
                   ((py ''q1'', [8852]), (py ''q1'', py ''1'', py ''L''))]"
  by (simp_all add: zigzag_def init_def)

lemma zigzag_valid: "verify_specification zigzag = []"
  by (simp add: verify_specification_def check_transition_def py_in_def zigzag_def init_def)
     (simp add: py_def)

lemma zigzag_cond:
  "loop_cond zigzag 5 (initial_state zigzag [])" "loop_cond zigzag 5 zigzag_1"
  "loop_cond zigzag 5 zigzag_2"
  by (simp_all add: loop_cond_def initial_state_empty zigzag_fields zigzag_1_def zigzag_2_def
        py_def)

lemma zigzag_body_0: "loop_body zigzag (initial_state zigzag []) = Inr (Continue zigzag_1)"
  by (simp add: loop_body_eq initial_state_empty extend_tape_def lookup_def zigzag_fields
        applied_def move_head_def sampled_def save_configuration_def get_configuration_def
        pop_blanks_single py_slice_to_def py_slice_from_def join_def format_value_def Let_def
        zigzag_1_def)

lemma zigzag_body_1: "loop_body zigzag zigzag_1 = Inr (Continue zigzag_2)"
  by (simp add: loop_body_eq zigzag_1_def extend_tape_def lookup_def zigzag_fields
        applied_def move_head_def sampled_def save_configuration_def get_configuration_def
        pop_blanks_two py_slice_to_def py_slice_from_def join_def format_value_def Let_def
        zigzag_2_def)
     (simp add: py_def)

lemma zigzag_reached:
  "reached zigzag [] 5 (Suc 0) zigzag_1" "reached zigzag [] 5 (Suc (Suc 0)) zigzag_2"
proof -
  show 1: "reached zigzag [] 5 (Suc 0) zigzag_1"
    by (rule reached.pass [OF reached.start zigzag_cond(1) zigzag_body_0])
  show "reached zigzag [] 5 (Suc (Suc 0)) zigzag_2"
    by (rule reached.pass [OF 1 zigzag_cond(2) zigzag_body_1])
qed

lemma zigzag_lookup:
  "lookup zigzag (state zigzag_1) (current_symbol zigzag zigzag_1)
     = Some (py ''q1'', py ''1'', py ''L'')"
  "lookup zigzag (state zigzag_2) (current_symbol zigzag zigzag_2)
     = Some (py ''q1'', py ''1'', py ''L'')"
  by (simp_all add: lookup_def current_symbol_def extend_tape_def zigzag_1_def zigzag_2_def
        zigzag_fields py_def)

lemma zigzag_extend:
  "tape (extend_tape zigzag zigzag_1) = [[8852], [8852]]" "head (extend_tape zigzag zigzag_1) = 1"
  "tape (extend_tape zigzag zigzag_2) = [[8852], py ''1'']" "head (extend_tape zigzag zigzag_2) = 0"
  by (simp_all add: extend_tape_def zigzag_1_def zigzag_2_def zigzag_fields)

lemma accept_blank_visited:
  "visited accept_blank 1 (initial_state accept_blank []) =
     [initial_state accept_blank [], accept_blank_final]"
proof -
  have "\<not> loop_cond accept_blank 1 accept_blank_final"
    by (simp add: loop_cond_def accept_blank_final_def)
  then have "visited accept_blank 1 accept_blank_final = [accept_blank_final]"
    by (rule visited_stop)
  with visited_Continue [OF accept_blank_cond accept_blank_body] show ?thesis by simp
qed


section \<open>Properties of the run\<close>

text \<open>
  C1 on the code: \<open>accept_blank\<close> passes \<open>verify_specification\<close>; run on the empty input
  with step limit 1 it leaves the loop in its accepting state after one step, and the
  result is CICLO INFINITO, not ACEPTADA: the result chain tests the step limit first.
\<close>

theorem accepted_at_the_limit:
  "verify_specification accept_blank = [] \<and>
   run_loop accept_blank 1 (initial_state accept_blank []) =
     Inr \<lparr>tape = [[8852]], state = qaccept accept_blank, head = 1, step = 1,
            configurations = [py ''q0'' @ [8852], [8852] @ py ''qa'' @ [8852]]\<rparr> \<and>
   run accept_blank [] 1 =
     Inr ([py ''q0'' @ [8852], [8852] @ py ''qa'' @ [8852]], CICLO_INFINITO)"
  by (simp add: run_def accept_blank_run_loop result_of_def accept_blank_fields
        verify_specification_def check_transition_def py_in_def accept_blank_final_def)
     (simp add: accept_blank_def init_def py_def)

text \<open>
  C2, as the claim states it, fails: a machine that has no transition for (initial state,
  blank) and whose initial state is its accepting state accepts the empty input, with no
  trace entry beyond the initial one; the loop body is never entered.
\<close>

theorem accept_at_once_not_rejected:
  "verify_specification accept_at_once = [] \<and>
   lookup accept_at_once (q0 accept_at_once) (blank accept_at_once) = None \<and>
   run accept_at_once [] 10000 = Inr ([py ''qa'' @ [8852]], ACEPTADA)"
  by (simp add: run_def run_loop.simps [of accept_at_once 10000] loop_cond_def
        initial_state_empty result_of_def accept_at_once_fields lookup_def format_value_def
        verify_specification_def py_in_def)
     (simp add: accept_at_once_def init_def py_def)

text \<open>
  C2, amended. For a machine whose accepting and rejecting states differ: whenever a pass
  through the loop body finds no transition for (state, symbol under the head), \<open>run\<close>
  raises nothing and returns RECHAZADA, its trace being the trace so far followed by the
  snapshot of the current tape and head with the rejecting state. In particular, when
  there is no transition for (initial state, blank), the initial state is neither the
  accepting nor the rejecting state and the step limit is positive, the run on the empty
  input returns RECHAZADA with exactly one trace entry after the initial snapshot.
\<close>

theorem missing_transition_rejects:
  assumes ar: "qaccept M \<noteq> qreject M"
  shows "(\<forall>k s. reached M inp n k s \<longrightarrow> loop_cond M n s \<longrightarrow>
              lookup M (state s) (current_symbol M s) = None \<longrightarrow>
            run M inp n = Inr (configurations s @ [snapshot M (rejecting M s)], RECHAZADA)) \<and>
         (lookup M (q0 M) (blank M) = None \<longrightarrow> q0 M \<noteq> qaccept M \<longrightarrow> q0 M \<noteq> qreject M \<longrightarrow>
            0 < n \<longrightarrow>
            run M [] n = Inr ([format_value (q0 M) @ blank M,
                               format_value (qreject M) @ blank M], RECHAZADA))"
proof -
  have gen: "run M inp n = Inr (configurations s @ [snapshot M (rejecting M s)], RECHAZADA)"
    if r: "reached M inp n k s" and c: "loop_cond M n s"
      and lk: "lookup M (state s) (current_symbol M s) = None" for inp k s
  proof -
    have "result_of M n (save_configuration M (rejecting M s)) = RECHAZADA"
      using c ar by (auto simp: result_of_def rejecting_def loop_cond_def)
    then show ?thesis
      unfolding run_def missing_transition_run_loop [OF r c lk]
      by (simp add: save_configuration_configurations rejecting_def)
  qed
  have part: "run M [] n = Inr ([format_value (q0 M) @ blank M,
                               format_value (qreject M) @ blank M], RECHAZADA)"
    if lk: "lookup M (q0 M) (blank M) = None" and na: "q0 M \<noteq> qaccept M"
      and nr: "q0 M \<noteq> qreject M" and pos: "0 < n"
  proof -
    have c: "loop_cond M n (initial_state M [])"
      using na nr pos by (simp add: initial_state_empty loop_cond_def)
    have e: "extend_tape M (initial_state M []) = initial_state M []"
      by (simp add: initial_state_empty extend_tape_def)
    have lk': "lookup M (state (initial_state M [])) (current_symbol M (initial_state M [])) = None"
      unfolding current_symbol_def e using lk by (simp add: initial_state_empty)
    have "snapshot M (rejecting M (initial_state M [])) = format_value (qreject M) @ blank M"
      unfolding rejecting_def e
      by (simp add: snapshot_def initial_state_empty get_configuration_single)
    with gen [OF reached.start c lk'] show ?thesis
      by (simp add: initial_state_empty)
  qed
  from gen part show ?thesis by blast
qed

theorem missing_transition_rejects_witness:
  "qaccept no_moves \<noteq> qreject no_moves \<and>
   lookup no_moves (q0 no_moves) (blank no_moves) = None \<and>
   q0 no_moves \<noteq> qaccept no_moves \<and> q0 no_moves \<noteq> qreject no_moves \<and>
   run no_moves [] 10000 =
     Inr ([py ''q0'' @ [8852], py ''qr'' @ [8852]], RECHAZADA) \<and>
   reached no_moves [] 5 0 (initial_state no_moves []) \<and>
   loop_cond no_moves 5 (initial_state no_moves []) \<and>
   run no_moves [] 5 =
     Inr (configurations (initial_state no_moves []) @
           [snapshot no_moves (rejecting no_moves (initial_state no_moves []))], RECHAZADA)"
proof -
  have ar: "qaccept no_moves \<noteq> qreject no_moves"
    by (simp add: no_moves_fields py_def)
  have lk: "lookup no_moves (q0 no_moves) (blank no_moves) = None"
    by (simp add: lookup_def no_moves_fields)
  have na: "q0 no_moves \<noteq> qaccept no_moves" "q0 no_moves \<noteq> qreject no_moves"
    by (simp_all add: no_moves_fields py_def)
  from missing_transition_rejects [OF ar, of "[]" 10000] lk na
  have a: "run no_moves [] 10000 =
     Inr ([py ''q0'' @ [8852], py ''qr'' @ [8852]], RECHAZADA)"
    by (simp add: no_moves_fields format_value_def)
  from missing_transition_rejects [OF ar, of "[]" 5] reached.start no_moves_cond no_moves_lookup
  have b: "run no_moves [] 5 =
     Inr (configurations (initial_state no_moves []) @
           [snapshot no_moves (rejecting no_moves (initial_state no_moves []))], RECHAZADA)"
    by blast
  from ar lk na a b reached.start [of no_moves "[]" 5] no_moves_cond show ?thesis by blast
qed

text \<open>
  C4. The trace \<open>run\<close> returns is the list of snapshots of exactly those states the
  loop goes through (the initial state first, then the state after each pass through the
  loop body, the rejecting state of a missing transition included) whose step counter is
  below 100 or a multiple of 100, or whose state is the accepting or the rejecting state.
  The state after \<open>i\<close> passes has step counter \<open>i\<close>, and none but the last state the loop
  goes through is accepting or rejecting, so the last disjunct selects the final terminal
  configuration only.
\<close>

theorem trace_is_sampled_run:
  "\<exists>f. run_loop M n (initial_state M inp) = Inr f \<and>
       last (visited M n (initial_state M inp)) = f \<and>
       run M inp n =
         Inr (map (snapshot M)
                (filter (\<lambda>s. step s < 100 \<or> step s mod 100 = 0 \<or>
                              state s = qaccept M \<or> state s = qreject M)
                   (visited M n (initial_state M inp))),
              result_of M n f) \<and>
       (\<forall>i. Suc i < length (visited M n (initial_state M inp)) \<longrightarrow>
            step (visited M n (initial_state M inp) ! i) = int i \<and>
            state (visited M n (initial_state M inp) ! i) \<noteq> qaccept M \<and>
            state (visited M n (initial_state M inp) ! i) \<noteq> qreject M)"
proof -
  let ?s0 = "initial_state M inp"
  let ?vs = "visited M n ?s0"
  have sam: "sampled M = (\<lambda>s. step s < 100 \<or> step s mod 100 = 0 \<or>
                              state s = qaccept M \<or> state s = qreject M)"
    by (auto simp: sampled_def fun_eq_iff)
  from run_loop_visited [OF head_in_range_initial, where M = M and n = n] obtain f where
    f: "run_loop M n ?s0 = Inr f" "last ?vs = f"
       "configurations f = configurations ?s0 @ map (snapshot M) (filter (sampled M) (tl ?vs))"
    by blast
  have c0: "configurations ?s0 = [snapshot M ?s0]"
    by (simp add: initial_state_def save_configuration_configurations)
  have s0: "sampled M ?s0" by (simp add: sampled_def initial_state_def)
  have v: "?vs = ?s0 # tl ?vs"
    using visited_not_Nil [of M n ?s0] hd_visited [of M n ?s0] by (metis list.collapse)
  have "configurations f = map (snapshot M) (filter (sampled M) ?vs)"
    using f(3) c0 s0 by (subst v) simp
  then have tr: "run M inp n = Inr (map (snapshot M) (filter (sampled M) ?vs), result_of M n f)"
    using f(1) by (simp add: run_def)
  have idx: "step (?vs ! i) = int i \<and> state (?vs ! i) \<noteq> qaccept M \<and> state (?vs ! i) \<noteq> qreject M"
    if "Suc i < length ?vs" for i
    using visited_nth [OF head_in_range_initial that]
    by (simp add: loop_cond_def initial_state_def)
  from f(1,2) tr idx show ?thesis unfolding sam by blast
qed

theorem trace_is_sampled_run_witness:
  "Suc 0 < length (visited accept_blank 1 (initial_state accept_blank [])) \<and>
   step (visited accept_blank 1 (initial_state accept_blank []) ! 0) = 0 \<and>
   run accept_blank [] 1 =
     Inr (map (snapshot accept_blank) [initial_state accept_blank [], accept_blank_final],
          CICLO_INFINITO)"
proof -
  from trace_is_sampled_run [of accept_blank 1 "[]"] obtain f where
    f: "last (visited accept_blank 1 (initial_state accept_blank [])) = f"
    and r: "run accept_blank [] 1 =
         Inr (map (snapshot accept_blank)
                (filter (\<lambda>s. step s < 100 \<or> step s mod 100 = 0 \<or>
                              state s = qaccept accept_blank \<or> state s = qreject accept_blank)
                   (visited accept_blank 1 (initial_state accept_blank []))),
              result_of accept_blank 1 f)"
    and i: "\<forall>i. Suc i < length (visited accept_blank 1 (initial_state accept_blank [])) \<longrightarrow>
            step (visited accept_blank 1 (initial_state accept_blank []) ! i) = int i \<and>
            state (visited accept_blank 1 (initial_state accept_blank []) ! i)
              \<noteq> qaccept accept_blank \<and>
            state (visited accept_blank 1 (initial_state accept_blank []) ! i)
              \<noteq> qreject accept_blank"
    by blast
  have l: "Suc 0 < length (visited accept_blank 1 (initial_state accept_blank []))"
    by (simp add: accept_blank_visited)
  from i l have s: "step (visited accept_blank 1 (initial_state accept_blank []) ! 0) = 0"
    by fastforce
  from f have ff: "f = accept_blank_final" by (simp add: accept_blank_visited)
  have k0: "step (initial_state accept_blank []) = 0"
    by (simp add: initial_state_empty)
  have k1: "state accept_blank_final = qaccept accept_blank" "step accept_blank_final = 1"
    by (simp_all add: accept_blank_final_def accept_blank_fields)
  have "run accept_blank [] 1 =
     Inr (map (snapshot accept_blank) [initial_state accept_blank [], accept_blank_final],
          CICLO_INFINITO)"
    using r unfolding accept_blank_visited ff
    by (simp add: k0 k1 result_of_def)
  with l s show ?thesis by blast
qed

text \<open>
  C6. \<open>run\<close> is a function of what it reads: two machine objects with the same special
  states, blank symbol and transition dictionary (whatever the order of its entries, and
  whatever Q, Sigma and Gamma hold) give, on the same input string and step limit, the
  same outcome: the same trace and the same result. Running one machine twice is the case
  where the two objects are the same.
\<close>

theorem run_deterministic:
  assumes "same_machine M M'"
  shows "run M input_string max_steps = run M' input_string max_steps"
proof -
  have "run_loop M max_steps (initial_state M input_string) =
        run_loop M' max_steps (initial_state M' input_string)"
    using same_machine_run_loop [OF assms] same_machine_body(3) [OF assms] by simp
  then show ?thesis
    by (simp add: run_def same_machine_body(4) [OF assms] cong: sum.case_cong)
qed

theorem run_deterministic_witness:
  "same_machine accept_blank_twice accept_blank_reordered \<and>
   delta accept_blank_twice \<noteq> delta accept_blank_reordered \<and>
   run accept_blank_twice (py ''0'') 10000 = run accept_blank_reordered (py ''0'') 10000 \<and>
   same_machine accept_blank accept_blank \<and>
   run accept_blank [] 1 = run accept_blank [] 1"
proof -
  have a: "same_machine accept_blank_twice accept_blank_reordered"
    by (auto simp: same_machine_def accept_blank_twice_def accept_blank_reordered_def
          fun_eq_iff py_def)
  have b: "same_machine accept_blank accept_blank" by (simp add: same_machine_def)
  have c: "delta accept_blank_twice \<noteq> delta accept_blank_reordered"
    by (simp add: accept_blank_twice_def accept_blank_reordered_def py_def)
  from run_deterministic [OF a, of "py ''0''" 10000] run_deterministic [OF b, of "[]" 1] a b c
  show ?thesis by blast
qed

text \<open>
  C7. \<open>get_configuration\<close> trims the list it is handed, which is a copy: taking a
  snapshot leaves the tape of the run as it is. And the tape of the run never gets shorter:
  of two states of one run, the later has a tape at least as long as the earlier, and so
  has the state the loop ends in.
\<close>

theorem live_tape_never_shrinks:
  "fst (get_configuration M (tape s) (state s) (head s)) = pop_blanks (blank M) (tape s) \<and>
   tape (save_configuration M s) = tape s \<and>
   (reached M inp n j s \<longrightarrow> reached M inp n k t \<longrightarrow> j \<le> k \<longrightarrow>
      length (tape s) \<le> length (tape t)) \<and>
   (reached M inp n j s \<longrightarrow> run_loop M n (initial_state M inp) = Inr f \<longrightarrow>
      length (tape s) \<le> length (tape f))"
proof -
  have "length (tape s) \<le> length (tape f)"
    if r: "reached M inp n j s" and f: "run_loop M n (initial_state M inp) = Inr f"
    using run_loop_length [OF reached_in_range [OF r]] f reached_run_loop [OF r] by simp
  moreover have "length (tape s) \<le> length (tape t)"
    if "reached M inp n j s" "reached M inp n k t" "j \<le> k"
    using reached_length_mono [OF that(2) that(1) that(3)] .
  ultimately show ?thesis by (simp add: get_configuration_parts)
qed

theorem live_tape_never_shrinks_witness:
  "reached accept_blank [] 1 0 (initial_state accept_blank []) \<and>
   reached accept_blank [] 1 1 accept_blank_final \<and>
   run_loop accept_blank 1 (initial_state accept_blank []) =
     Inr accept_blank_final \<and>
   length (tape (initial_state accept_blank [])) \<le> length (tape accept_blank_final)"
proof -
  let ?t = "accept_blank_final"
  have r0: "reached accept_blank [] 1 0 (initial_state accept_blank [])"
    by (rule reached.start)
  have r1: "reached accept_blank [] 1 (Suc 0) ?t"
    by (rule reached.pass [OF r0 accept_blank_cond accept_blank_body])
  from live_tape_never_shrinks [of accept_blank "initial_state accept_blank []" "[]" 1 0 1 ?t ?t]
    r0 r1 accept_blank_run_loop
  show ?thesis by simp
qed

text \<open>
  C8. In every run, whenever the loop body is entered (state \<open>s\<close> reached after \<open>k\<close>
  passes, loop condition true): the extension step appends exactly one blank when the head
  stands just past the right end and otherwise changes nothing (the head is never negative
  there); after it the head index lies in \<open>[0, length of the tape)\<close>, and the read
  \<open>tape[head]\<close> of the pass succeeds on the extended tape. The pass then raises nothing:
  with no transition for the symbol read it breaks into the rejecting state; with a
  transition it writes in range and falls through to a state \<open>s'\<close> in which a left move
  from cell 0 has inserted one blank at the front and left the head at 0, and any other
  move has changed only the head, by +1 for \<open>R\<close> and -1 for \<open>L\<close>. In \<open>s'\<close> the head is on
  the tape or just past its right end, so that the extension step of the next pass, which
  appends one blank in the latter case, puts it within the tape before the next read.
\<close>

theorem head_within_tape_before_read:
  assumes "reached M inp n k s" and "loop_cond M n s"
  shows "(let e = extend_tape M s in
          e = (if head s = int (length (tape s)) then s\<lparr>tape := tape s @ [blank M]\<rparr> else s) \<and>
          0 \<le> head e \<and> head e < int (length (tape e)) \<and>
          py_getitem (tape e) (head e) = Inr (current_symbol M s) \<and>
          (case lookup M (state s) (current_symbol M s) of
             None \<Rightarrow> loop_body M s = Inr (Break (save_configuration M (rejecting M s)))
           | Some (q, a, d) \<Rightarrow>
               (\<exists>s'. loop_body M s = Inr (Continue s') \<and> reached M inp n (Suc k) s' \<and>
                  py_setitem (tape e) (head e) a = Inr ((tape e)[nat (head e) := a]) \<and>
                  state s' = Some q \<and> step s' = step s + 1 \<and>
                  (if d = py ''L'' \<and> head e = 0
                   then tape s' = blank M # (tape e)[0 := a] \<and> head s' = 0
                   else tape s' = (tape e)[nat (head e) := a] \<and>
                        head s' = head e +
                          (if d = py ''R'' then 1 else if d = py ''L'' then - 1 else 0)) \<and>
                  0 \<le> head s' \<and> head s' \<le> int (length (tape s')) \<and>
                  (let e' = extend_tape M s' in
                     e' = (if head s' = int (length (tape s'))
                           then s'\<lparr>tape := tape s' @ [blank M]\<rparr> else s') \<and>
                     0 \<le> head e' \<and> head e' < int (length (tape e'))))))"
proof -
  define e where "e = extend_tape M s"
  have r: "head_in_range s" using assms(1) by (rule reached_in_range)
  note le = head_in_range_le [OF r]
  have b: "0 \<le> head e" "head e < int (length (tape e))"
    using extend_tape_bounds [OF le, of M] by (simp_all add: e_def)
  have cs: "current_symbol M s = tape e ! nat (head e)"
    by (simp add: current_symbol_def e_def)
  have rd: "py_getitem (tape e) (head e) = Inr (current_symbol M s)"
    unfolding cs using b by (rule py_getitem_in_range)
  have ex: "e = (if head s = int (length (tape s)) then s\<lparr>tape := tape s @ [blank M]\<rparr> else s)"
    unfolding e_def using r by (rule extend_tape_in_range)
  have body: "loop_body M s =
      (case lookup M (state s) (current_symbol M s) of
         None \<Rightarrow> Inr (Break (save_configuration M (rejecting M s)))
       | Some t \<Rightarrow>
           Inr (Continue (if sampled M (applied M e t)
                          then save_configuration M (applied M e t) else applied M e t)))"
    unfolding loop_body_eq [OF le] Let_def e_def [symmetric] cs rejecting_def
    by (simp add: e_def)
  have goal: "case lookup M (state s) (current_symbol M s) of
             None \<Rightarrow> loop_body M s = Inr (Break (save_configuration M (rejecting M s)))
           | Some (q, a, d) \<Rightarrow>
               (\<exists>s'. loop_body M s = Inr (Continue s') \<and> reached M inp n (Suc k) s' \<and>
                  py_setitem (tape e) (head e) a = Inr ((tape e)[nat (head e) := a]) \<and>
                  state s' = Some q \<and> step s' = step s + 1 \<and>
                  (if d = py ''L'' \<and> head e = 0
                   then tape s' = blank M # (tape e)[0 := a] \<and> head s' = 0
                   else tape s' = (tape e)[nat (head e) := a] \<and>
                        head s' = head e +
                          (if d = py ''R'' then 1 else if d = py ''L'' then - 1 else 0)) \<and>
                  0 \<le> head s' \<and> head s' \<le> int (length (tape s')) \<and>
                  (let e' = extend_tape M s' in
                     e' = (if head s' = int (length (tape s'))
                           then s'\<lparr>tape := tape s' @ [blank M]\<rparr> else s') \<and>
                     0 \<le> head e' \<and> head e' < int (length (tape e'))))"
  proof (cases "lookup M (state s) (current_symbol M s)")
    case None
    with body show ?thesis by simp
  next
    case (Some t)
    obtain q a d where t: "t = (q, a, d)" by (cases t)
    define s' where "s' = (if sampled M (applied M e t)
                          then save_configuration M (applied M e t) else applied M e t)"
    from body Some have lb: "loop_body M s = Inr (Continue s')" by (simp add: s'_def)
    have rs: "reached M inp n (Suc k) s'" using assms lb by (rule reached.pass)
    have hr: "head_in_range s'" using rs by (rule reached_in_range)
    have eq: "tape s' = tape (applied M e (q, a, d))" "head s' = head (applied M e (q, a, d))"
      "state s' = Some q" "step s' = step s + 1"
      by (simp_all add: s'_def t e_def)
    have mv: "(if d = py ''L'' \<and> head e = 0
                   then tape s' = blank M # (tape e)[0 := a] \<and> head s' = 0
                   else tape s' = (tape e)[nat (head e) := a] \<and>
                        head s' = head e +
                          (if d = py ''R'' then 1 else if d = py ''L'' then - 1 else 0))"
      unfolding eq by (rule applied_tape_head [OF b])
    have wr: "py_setitem (tape e) (head e) a = Inr ((tape e)[nat (head e) := a])"
      using b by (rule py_setitem_in_range)
    have nx: "(let e' = extend_tape M s' in
                     e' = (if head s' = int (length (tape s'))
                           then s'\<lparr>tape := tape s' @ [blank M]\<rparr> else s') \<and>
                     0 \<le> head e' \<and> head e' < int (length (tape e')))"
      unfolding Let_def
      using extend_tape_in_range [OF hr, of M] extend_tape_bounds [OF head_in_range_le [OF hr], of M]
      by blast
    from hr have h': "0 \<le> head s'" "head s' \<le> int (length (tape s'))"
      by (simp_all add: head_in_range_def)
    from lb rs wr eq(3,4) mv h' nx
    have "\<exists>s'. loop_body M s = Inr (Continue s') \<and> reached M inp n (Suc k) s' \<and>
                  py_setitem (tape e) (head e) a = Inr ((tape e)[nat (head e) := a]) \<and>
                  state s' = Some q \<and> step s' = step s + 1 \<and>
                  (if d = py ''L'' \<and> head e = 0
                   then tape s' = blank M # (tape e)[0 := a] \<and> head s' = 0
                   else tape s' = (tape e)[nat (head e) := a] \<and>
                        head s' = head e +
                          (if d = py ''R'' then 1 else if d = py ''L'' then - 1 else 0)) \<and>
                  0 \<le> head s' \<and> head s' \<le> int (length (tape s')) \<and>
                  (let e' = extend_tape M s' in
                     e' = (if head s' = int (length (tape s'))
                           then s'\<lparr>tape := tape s' @ [blank M]\<rparr> else s') \<and>
                     0 \<le> head e' \<and> head e' < int (length (tape e')))"
      by blast
    with Some t show ?thesis by simp
  qed
  show ?thesis
    unfolding e_def [symmetric] by (subst Let_def) (intro conjI ex b rd goal)
qed

theorem head_within_tape_before_read_witness:
  "reached zigzag [] 5 (Suc 0) zigzag_1 \<and> loop_cond zigzag 5 zigzag_1 \<and>
   head zigzag_1 = int (length (tape zigzag_1)) \<and>
   extend_tape zigzag zigzag_1 = zigzag_1\<lparr>tape := tape zigzag_1 @ [blank zigzag]\<rparr> \<and>
   py_getitem (tape (extend_tape zigzag zigzag_1)) (head (extend_tape zigzag zigzag_1))
     = Inr (current_symbol zigzag zigzag_1) \<and>
   (\<exists>s'. loop_body zigzag zigzag_1 = Inr (Continue s') \<and>
         tape s' = [[8852], py ''1''] \<and> head s' = 0) \<and>
   reached zigzag [] 5 (Suc (Suc 0)) zigzag_2 \<and> loop_cond zigzag 5 zigzag_2 \<and>
   (\<exists>s'. loop_body zigzag zigzag_2 = Inr (Continue s') \<and>
         tape s' = [[8852], py ''1'', py ''1''] \<and> head s' = 0)"
proof -
  have h1: "head zigzag_1 = int (length (tape zigzag_1))" by (simp add: zigzag_1_def)
  note a = head_within_tape_before_read [OF zigzag_reached(1) zigzag_cond(2), unfolded Let_def zigzag_lookup(1)]
  note b = head_within_tape_before_read [OF zigzag_reached(2) zigzag_cond(3), unfolded Let_def zigzag_lookup(2)]
  from a h1 have a1: "extend_tape zigzag zigzag_1 = zigzag_1\<lparr>tape := tape zigzag_1 @ [blank zigzag]\<rparr>"
    by simp
  from a have a2: "py_getitem (tape (extend_tape zigzag zigzag_1)) (head (extend_tape zigzag zigzag_1))
     = Inr (current_symbol zigzag zigzag_1)" by blast
  from a have a3: "\<exists>s'. loop_body zigzag zigzag_1 = Inr (Continue s') \<and>
         tape s' = [[8852], py ''1''] \<and> head s' = 0"
    by (auto simp: zigzag_extend zigzag_fields py_def)
  from b have b3: "\<exists>s'. loop_body zigzag zigzag_2 = Inr (Continue s') \<and>
         tape s' = [[8852], py ''1'', py ''1''] \<and> head s' = 0"
    by (auto simp: zigzag_extend zigzag_fields py_def)
  from zigzag_reached zigzag_cond(2,3) h1 a1 a2 a3 b3 show ?thesis by blast
qed

text \<open>
  C9. Whatever the machine, the input string and the step limit, \<open>run\<close> raises nothing
  and returns, and its result is one of ACEPTADA, RECHAZADA and CICLO INFINITO: the fourth
  branch of the result chain, DESCONOCIDO, is never taken.
\<close>

theorem run_three_results:
  "\<exists>trace r. run M input_string max_steps = Inr (trace, r) \<and>
      r \<in> {ACEPTADA, RECHAZADA, CICLO_INFINITO}"
proof -
  from run_loop_result [OF head_in_range_initial]
  obtain f where f: "run_loop M max_steps (initial_state M input_string) = Inr f"
      "result_of M max_steps f \<noteq> DESCONOCIDO" by blast
  then show ?thesis
    by (cases "result_of M max_steps f") (simp_all add: run_def)
qed

text \<open>
  C10. When the pass that starts after \<open>k\<close> applied transitions finds no transition for
  the pair (state, symbol under the head), the run ends there in the rejecting state with
  its step counter still equal to \<open>k\<close>: the rejection is not counted as a step.
\<close>

theorem missing_transition_not_counted:
  assumes "reached M inp n k s" and "loop_cond M n s"
    and "lookup M (state s) (current_symbol M s) = None"
  shows "\<exists>f. run_loop M n (initial_state M inp) = Inr f \<and> state f = qreject M \<and>
             step f = int k \<and> step f = step s"
  using missing_transition_run_loop [OF assms] reached_step [OF assms(1)]
  by (simp add: rejecting_def)

theorem missing_transition_not_counted_witness:
  "reached no_moves [] 5 0 (initial_state no_moves []) \<and>
   loop_cond no_moves 5 (initial_state no_moves []) \<and>
   lookup no_moves (state (initial_state no_moves []))
     (current_symbol no_moves (initial_state no_moves [])) = None \<and>
   (\<exists>f. run_loop no_moves 5 (initial_state no_moves []) = Inr f \<and> step f = 0)"
  using missing_transition_not_counted [OF reached.start no_moves_cond no_moves_lookup]
    reached.start [of no_moves "[]" 5] no_moves_cond no_moves_lookup
  by auto


section \<open>Properties of the validator\<close>





section \<open>Properties of the configuration notation\<close>

text \<open>
  C5, as the claim states it, fails: the notation has no delimiter, so with a state named
  \<open>q\<close> and a tape symbol \<open>q\<close> (the validator accepts both) the snapshots of the tape
  \<open>q 0\<close> in state \<open>q\<close> with the head on cell 0 and on cell 1 are both \<open>qq0\<close>, and splitting
  that text at the state marker gives the parts of the first, not of the second.
\<close>

theorem same_text_for_two_heads:
  "verify_specification state_named_q = [] \<and>
   snd (get_configuration state_named_q [py ''q'', py ''0''] (Some (py ''q'')) 0) = py ''qq0'' \<and>
   snd (get_configuration state_named_q [py ''q'', py ''0''] (Some (py ''q'')) 1) = py ''qq0'' \<and>
   \<not> same_snapshot state_named_q ([py ''q'', py ''0''], Some (py ''q''), 0)
                                 ([py ''q'', py ''0''], Some (py ''q''), 1) \<and>
   find_marker (py ''q'')
       (snd (get_configuration state_named_q [py ''q'', py ''0''] (Some (py ''q'')) 1))
     = Some ([], py ''q0'')"
proof -
  have b: "blank state_named_q = [8852]" by (simp add: state_named_q_def init_def)
  have v: "verify_specification state_named_q = []"
    by (simp add: verify_specification_def check_transition_def py_in_def state_named_q_def
          init_def) (simp add: py_def)
  have p: "pop_blanks [8852] [py ''q'', py ''0''] = [py ''q'', py ''0'']"
    by (simp add: pop_blanks_two py_def)
  have c0: "snd (get_configuration state_named_q [py ''q'', py ''0''] (Some (py ''q'')) 0)
      = py ''qq0''"
    by (simp add: get_configuration_def b p py_slice_to_def py_slice_from_def join_def
          format_value_def Let_def) (simp add: py_def)
  have c1: "snd (get_configuration state_named_q [py ''q'', py ''0''] (Some (py ''q'')) 1)
      = py ''qq0''"
    by (simp add: get_configuration_def b p py_slice_to_def py_slice_from_def join_def
          format_value_def Let_def) (simp add: py_def)
  have n: "\<not> same_snapshot state_named_q ([py ''q'', py ''0''], Some (py ''q''), 0)
                                 ([py ''q'', py ''0''], Some (py ''q''), 1)"
    by (simp add: same_snapshot_def)
  have f: "find_marker (py ''q'') (py ''qq0'') = Some ([], py ''q0'')"
    by (simp add: py_def)
  from v c0 c1 n f show ?thesis by simp
qed

text \<open>
  C5, amended. Take two snapshots whose tapes are non-empty lists of one-character symbols
  over a set \<open>G\<close> of characters that holds the (one-character) blank, whose state texts
  start with a character outside \<open>G\<close>, neither being the other followed by characters of
  \<open>G\<close>, and whose heads are on the trimmed tape or just past its end. Then their formatted
  strings are equal exactly when the snapshots are equal up to trailing blanks. And for any
  snapshot whose state text is non-empty and starts with a character that does not occur
  left of the head, splitting the formatted string at the first occurrence of the state
  text gives back the left and the right part.
\<close>

theorem configuration_readable:
  "(readable G M t q h \<longrightarrow> readable G M t' q' h' \<longrightarrow>
      \<not> extends G (format_value q) (format_value q') \<longrightarrow>
      \<not> extends G (format_value q') (format_value q) \<longrightarrow>
      (snd (get_configuration M t q h) = snd (get_configuration M t' q' h') \<longleftrightarrow>
       same_snapshot M (t, q, h) (t', q', h'))) \<and>
   (format_value q \<noteq> [] \<longrightarrow> hd (format_value q) \<notin> set (left_part M t h) \<longrightarrow>
      find_marker (format_value q) (snd (get_configuration M t q h)) =
        Some (left_part M t h, right_part M t h))"
proof -
  have "find_marker (format_value q) (snd (get_configuration M t q h)) =
        Some (left_part M t h, right_part M t h)"
    if "format_value q \<noteq> []" "hd (format_value q) \<notin> set (left_part M t h)"
    using find_marker_at [OF that] by (simp add: get_configuration_parts)
  with readable_injective [of G M t q h t' q' h']
    same_snapshot_get_configuration [of M t q h t' q' h']
  show ?thesis by blast
qed

theorem configuration_readable_witness:
  "readable {48, 49, 8852} accept_blank [py ''0'', py ''1'', [8852]] (Some (py ''q0'')) 1 \<and>
   readable {48, 49, 8852} accept_blank [py ''0'', py ''1''] (Some (py ''q0'')) 1 \<and>
   \<not> extends {48, 49, 8852} (py ''q0'') (py ''q0'') \<and>
   snd (get_configuration accept_blank [py ''0'', py ''1'', [8852]] (Some (py ''q0'')) 1) =
   snd (get_configuration accept_blank [py ''0'', py ''1''] (Some (py ''q0'')) 1) \<and>
   find_marker (py ''q0'')
     (snd (get_configuration accept_blank [py ''0'', py ''1'', [8852]] (Some (py ''q0'')) 1)) =
     Some (left_part accept_blank [py ''0'', py ''1'', [8852]] 1,
           right_part accept_blank [py ''0'', py ''1'', [8852]] 1)"
proof -
  let ?G = "{48, 49, 8852} :: nat set"
  have b: "blank accept_blank = [8852]" by (simp add: accept_blank_fields)
  have p1: "pop_blanks [8852] [py ''0'', py ''1'', [8852]] = [py ''0'', py ''1'']"
    by (simp add: pop_blanks.simps [of "[8852]" "[py ''0'', py ''1'', [8852]]"] pop_blanks_two)
       (simp add: py_def)
  have p2: "pop_blanks [8852] [py ''0'', py ''1''] = [py ''0'', py ''1'']"
    by (simp add: pop_blanks_two) (simp add: py_def)
  have r1: "readable ?G accept_blank [py ''0'', py ''1'', [8852]] (Some (py ''q0'')) 1"
    by (simp add: readable_def b p1 format_value_def) (simp add: py_def)
  have r2: "readable ?G accept_blank [py ''0'', py ''1''] (Some (py ''q0'')) 1"
    by (simp add: readable_def b p2 format_value_def) (simp add: py_def)
  have e: "\<not> extends ?G (py ''q0'') (py ''q0'')" by (simp add: extends_def)
  have s: "same_snapshot accept_blank ([py ''0'', py ''1'', [8852]], Some (py ''q0''), 1)
             ([py ''0'', py ''1''], Some (py ''q0''), 1)"
    by (simp add: same_snapshot_def b p1 p2)
  have l: "left_part accept_blank [py ''0'', py ''1'', [8852]] 1 = py ''0''"
    by (simp add: left_part_def trimmed_def b p1 py_slice_to_def join_def)
  have m1: "format_value (Some (py ''q0'')) \<noteq> []"
    by (simp add: format_value_def py_def)
  have m2: "hd (format_value (Some (py ''q0''))) \<notin>
       set (left_part accept_blank [py ''0'', py ''1'', [8852]] 1)"
    unfolding l by (simp add: format_value_def py_def)
  note m = m1 m2
  note cr = configuration_readable [of ?G accept_blank "[py ''0'', py ''1'', [8852]]"
      "Some (py ''q0'')" 1 "[py ''0'', py ''1'']" "Some (py ''q0'')" 1]
  have fv: "format_value (Some (py ''q0'')) = py ''q0''" by (simp add: format_value_def)
  from cr r1 r2 e s
  have c: "snd (get_configuration accept_blank [py ''0'', py ''1'', [8852]] (Some (py ''q0'')) 1) =
     snd (get_configuration accept_blank [py ''0'', py ''1''] (Some (py ''q0'')) 1)"
    unfolding fv by blast
  from cr m
  have f: "find_marker (py ''q0'')
     (snd (get_configuration accept_blank [py ''0'', py ''1'', [8852]] (Some (py ''q0'')) 1)) =
     Some (left_part accept_blank [py ''0'', py ''1'', [8852]] 1,
           right_part accept_blank [py ''0'', py ''1'', [8852]] 1)"
    unfolding fv by blast
  from r1 r2 e c f show ?thesis by blast
qed

end
